theory Spec2Isabelle
  imports
    Main
    "HOL-Library.Char_ord"
    "HOL-Library.List_Lexorder"
    "HOL-Library.Product_Lexorder"
    "HOL-Library.Option_ord"
begin

section \<open>State resolution v2 (synapse/state/v2.py)\<close>

subsection \<open>Data model\<close>

text \<open>
  Event ids, room ids, event types, state keys and senders are Python strings. Strings
  are compared as Python compares them (code point by code point, a proper prefix
  first), which is the order of \<open>HOL-Library.List_Lexorder\<close> over
  \<open>HOL-Library.Char_ord\<close>; tuples are compared lexicographically
  (\<open>HOL-Library.Product_Lexorder\<close>).
\<close>

type_synonym event_id = string
type_synonym state_key = "string \<times> string"

text \<open>A \<open>StateMap[str]\<close>: a dict from \<open>(type, state_key)\<close> to event id.\<close>

type_synonym statemap = "state_key \<rightharpoonup> event_id"

text \<open>
  A Python set has no specified iteration order. Wherever the source iterates over a
  set (or over the keys of a dict that was filled while iterating over one), the model
  takes the order from an enumeration function, of which only this much is known: it
  lists every element of a finite set once.
\<close>

definition is_enum :: "('a set \<Rightarrow> 'a list) \<Rightarrow> bool" where
  "is_enum en \<longleftrightarrow> (\<forall>S. finite S \<longrightarrow> set (en S) = S \<and> distinct (en S))"

subsection \<open>\<open>_seperate\<close>\<close>

text \<open>
  One iteration of the loop of \<open>_seperate\<close>, for one key. \<open>event_ids\<close> is the set
  \<open>{state_set.get(key) for state_set in state_sets}\<close>, held as a duplicate-free list;
  \<open>None\<close> is the \<open>None\<close> of \<open>dict.get\<close>. \<open>event_ids.pop()\<close> is only called on a
  set of one element, where it returns that element.
\<close>

definition seperate_key ::
  "statemap list \<Rightarrow> state_key \<Rightarrow> statemap \<times> (state_key \<rightharpoonup> event_id set)
     \<Rightarrow> statemap \<times> (state_key \<rightharpoonup> event_id set)" where
  "seperate_key state_sets k uc =
     (let event_ids = remdups (map (\<lambda>state_set. state_set k) state_sets) in
      if length event_ids = 1
      then ((fst uc)(k := hd event_ids), snd uc)
      else (fst uc, (snd uc)(k \<mapsto> the ` (set event_ids - {None}))))"

definition seperate ::
  "(state_key set \<Rightarrow> state_key list) \<Rightarrow> statemap list
     \<Rightarrow> statemap \<times> (state_key \<rightharpoonup> event_id set)" where
  "seperate iter_keys state_sets =
     fold (seperate_key state_sets)
       (iter_keys (\<Union>state_set \<in> set state_sets. dom state_set))
       (Map.empty, Map.empty)"

subsection \<open>Events, errors and the resolver's state\<close>

text \<open>
  The \<open>content\<close> of an event is free-form JSON. A JSON object is an association list
  read with \<open>map_of\<close>; \<open>JNull\<close> also stands for Python's \<open>None\<close>, which is what
  \<open>dict.get\<close> gives for a missing key. JSON numbers are integers here.
\<close>

datatype json = JNull | JBool bool | JInt int | JStr string | JArr "json list"
  | JObj "(string \<times> json) list"

text \<open>
  Modelled from the spec: the event class \<open>synapse.events.EventBase\<close> is not part of the
  source file; the fields are those of the spec's event schema. \<open>etype\<close> is the field
  \<open>type\<close>.
\<close>

record event =
  event_id :: string
  room_id :: string
  etype :: string
  state_key :: string
  sender :: string
  content :: "(string \<times> json) list"
  origin_server_ts :: int
  auth_event_ids :: "string list"
  rejected_reason :: "string option"
  membership :: "string option"

text \<open>
  Modelled from the spec: the constants of \<open>synapse.api.constants.EventTypes\<close>, which
  the source file imports.
\<close>

definition PowerLevels :: string where "PowerLevels = ''m.room.power_levels''"
definition JoinRules :: string where "JoinRules = ''m.room.join_rules''"
definition Create :: string where "Create = ''m.room.create''"
definition Member :: string where "Member = ''m.room.member''"

text \<open>
  Every way the source can raise. The first three are the \<open>Exception\<close>s the file
  raises itself, with the values their messages are built from; \<open>KeyError\<close> is a
  failed dict subscript, \<open>AttributeError\<close> an attribute read on a value that has none
  (\<open>None\<close>, or a JSON value that is not an object), \<open>IntError\<close> the \<open>TypeError\<close>
  or \<open>ValueError\<close> of \<open>int()\<close>, and \<open>CheckError\<close> any exception of
  \<open>event_auth.check\<close> that is not an \<open>AuthError\<close>.
\<close>

datatype error =
    StateResWrongRoom string string string
  | UnknownEvent string
  | GetEventWrongRoom string string string
  | KeyError
  | AttributeError
  | IntError
  | CheckError string

text \<open>
  The state threaded through the resolution: the event memo \<open>event_map\<close>, which
  \<open>_get_event\<close> fills, and the calls of \<open>logger.warning\<close> (auth event id, event id),
  oldest first.
\<close>

record rstate =
  event_map :: "event_id \<rightharpoonup> event"
  warnings :: "(event_id \<times> event_id) list"

type_synonym 'a M = "rstate \<Rightarrow> (error + 'a) \<times> rstate"

definition returnM :: "'a \<Rightarrow> 'a M" where
  "returnM x = (\<lambda>s. (Inr x, s))"

definition raiseM :: "error \<Rightarrow> 'a M" where
  "raiseM e = (\<lambda>s. (Inl e, s))"

definition bindM :: "'a M \<Rightarrow> ('a \<Rightarrow> 'b M) \<Rightarrow> 'b M" where
  "bindM m f = (\<lambda>s. case m s of (Inl e, s') \<Rightarrow> (Inl e, s') | (Inr x, s') \<Rightarrow> f x s')"

text \<open>The result of \<open>event_auth.check\<close>: it returns, raises \<open>AuthError\<close>, or raises
  something else.\<close>

datatype check_result = Passed | AuthError | OtherError string

text \<open>
  The external collaborators of the resolution. \<open>store_get_events\<close> is the store's
  \<open>get_events\<close> with \<open>allow_rejected=True\<close>: a request for a list of ids is answered
  with the restriction of this map to them. \<open>store_get_auth_chain_difference\<close> returns a
  finite set, given as a list. \<open>auth_types_for_event\<close> and \<open>check\<close> are the functions
  of \<open>synapse.event_auth\<close> (\<open>check\<close> is always called with \<open>do_sig_check=False\<close>
  and \<open>do_size_check=False\<close>), \<open>KNOWN_ROOM_VERSIONS\<close> the dict of
  \<open>synapse.api.room_versions\<close>, and \<open>int_of_str\<close> what \<open>int()\<close> makes of a string
  (\<open>None\<close> when it raises).
\<close>

record 'rv env =
  store_get_events :: "event_id \<rightharpoonup> event"
  store_get_auth_chain_difference :: "event_id set list \<Rightarrow> event_id list"
  auth_types_for_event :: "event \<Rightarrow> state_key list"
  check :: "'rv \<Rightarrow> event \<Rightarrow> (state_key \<rightharpoonup> event) \<Rightarrow> check_result"
  KNOWN_ROOM_VERSIONS :: "string \<rightharpoonup> 'rv"
  int_of_str :: "string \<Rightarrow> int option"

text \<open>The iteration orders of the Python sets and dicts of one run.\<close>

record iters =
  iter_keys :: "state_key set \<Rightarrow> state_key list"
  iter_ids :: "event_id set \<Rightarrow> event_id list"

subsection \<open>\<open>_get_event\<close>\<close>

definition get_event :: "'rv env \<Rightarrow> string \<Rightarrow> event_id \<Rightarrow> bool \<Rightarrow> event option M" where
  "get_event E rid eid allow_none s =
     (let s1 = (if eid \<notin> dom (event_map s)
                then s\<lparr>event_map := event_map s ++ (store_get_events E |` {eid})\<rparr>
                else s)
      in case event_map s1 eid of
           None \<Rightarrow> if allow_none then (Inr None, s1) else (Inl (UnknownEvent eid), s1)
         | Some ev \<Rightarrow>
             if room_id ev \<noteq> rid then (Inl (GetEventWrongRoom rid eid (room_id ev)), s1)
             else (Inr (Some ev), s1))"

text \<open>
  The loop that occurs four times in the source:
  \<^verbatim>\<open>for aid in auth_events:
    aev = yield _get_event(room_id, aid, event_map, state_res_store, allow_none=True)
    if aev and (aev.type, aev.state_key) == key: ...; break\<close>
  It returns the first auth event id whose event has the given \<open>(type, state_key)\<close>,
  with the event, or \<open>None\<close> when the loop ends without a \<open>break\<close>.
\<close>

fun first_auth_event ::
  "'rv env \<Rightarrow> string \<Rightarrow> state_key \<Rightarrow> event_id list \<Rightarrow> (event_id \<times> event) option M" where
  "first_auth_event E rid k [] s = (Inr None, s)"
| "first_auth_event E rid k (aid # aids) s =
     (case get_event E rid aid True s of
        (Inl e, s') \<Rightarrow> (Inl e, s')
      | (Inr None, s') \<Rightarrow> first_auth_event E rid k aids s'
      | (Inr (Some aev), s') \<Rightarrow>
          if (etype aev, state_key aev) = k then (Inr (Some (aid, aev)), s')
          else first_auth_event E rid k aids s')"

subsection \<open>\<open>_get_power_level_for_sender\<close>\<close>

definition py_get :: "(string \<times> json) list \<Rightarrow> string \<Rightarrow> json" where
  "py_get d k = (case map_of d k of None \<Rightarrow> JNull | Some v \<Rightarrow> v)"

definition py_get_default :: "(string \<times> json) list \<Rightarrow> string \<Rightarrow> json \<Rightarrow> json" where
  "py_get_default d k dflt = (case map_of d k of None \<Rightarrow> dflt | Some v \<Rightarrow> v)"

fun py_int :: "(string \<Rightarrow> int option) \<Rightarrow> json \<Rightarrow> error + int" where
  "py_int p (JInt n) = Inr n"
| "py_int p (JBool b) = Inr (if b then 1 else 0)"
| "py_int p (JStr str) = (case p str of None \<Rightarrow> Inl IntError | Some n \<Rightarrow> Inr n)"
| "py_int p JNull = Inl IntError"
| "py_int p (JArr xs) = Inl IntError"
| "py_int p (JObj kvs) = Inl IntError"

definition get_power_level_for_sender :: "'rv env \<Rightarrow> string \<Rightarrow> event_id \<Rightarrow> int M" where
  "get_power_level_for_sender E rid eid =
     bindM (get_event E rid eid False) (\<lambda>evo.
       case evo of
         None \<Rightarrow> raiseM AttributeError
       | Some ev \<Rightarrow>
           bindM (first_auth_event E rid (PowerLevels, []) (auth_event_ids ev)) (\<lambda>pl.
             case pl of
               None \<Rightarrow>
                 bindM (first_auth_event E rid (Create, []) (auth_event_ids ev)) (\<lambda>cr.
                   case cr of
                     Some (aid, aev) \<Rightarrow>
                       if py_get (content aev) ''creator'' = JStr (sender ev)
                       then returnM 100 else returnM 0
                   | None \<Rightarrow> returnM 0)
             | Some (aid, plev) \<Rightarrow>
                 (case py_get_default (content plev) ''users'' (JObj []) of
                    JObj users \<Rightarrow>
                      (let level = py_get users (sender ev);
                           level = (if level = JNull
                                    then py_get_default (content plev) ''users_default'' (JInt 0)
                                    else level)
                       in if level = JNull then returnM 0
                          else (\<lambda>s. (py_int (int_of_str E) level, s)))
                  | _ \<Rightarrow> raiseM AttributeError)))"

subsection \<open>\<open>_is_power_event\<close>\<close>

definition is_power_event :: "event \<Rightarrow> bool" where
  "is_power_event ev =
     (if (etype ev, state_key ev) \<in> {(PowerLevels, []), (JoinRules, []), (Create, [])}
      then True
      else if etype ev = Member \<and> membership ev \<in> {Some ''leave'', Some ''ban''}
      then sender ev \<noteq> state_key ev
      else False)"

subsection \<open>\<open>_add_event_and_auth_chain_to_graph\<close>\<close>

text \<open>\<open>d.setdefault(k, set())\<close>, as the dict after the call.\<close>

definition setdefault :: "('a \<rightharpoonup> 'b set) \<Rightarrow> 'a \<Rightarrow> ('a \<rightharpoonup> 'b set)" where
  "setdefault d k = (case d k of None \<Rightarrow> d(k \<mapsto> {}) | Some v \<Rightarrow> d)"

text \<open>\<open>d.setdefault(k, set()).add(x)\<close>.\<close>

definition setdefault_add :: "('a \<rightharpoonup> 'b set) \<Rightarrow> 'a \<Rightarrow> 'b \<Rightarrow> ('a \<rightharpoonup> 'b set)" where
  "setdefault_add d k x = d(k \<mapsto> insert x (case d k of None \<Rightarrow> {} | Some v \<Rightarrow> v))"

text \<open>
  The \<open>for aid in event.auth_event_ids()\<close> loop. The list \<open>state\<close> of the source is
  used as a stack (\<open>append\<close> and \<open>pop\<close> at its end); here the top of the stack is
  the head of the list.
\<close>

fun add_auth_edges ::
  "event_id set \<Rightarrow> event_id \<Rightarrow> event_id list
     \<Rightarrow> (event_id \<rightharpoonup> event_id set) \<times> event_id list
     \<Rightarrow> (event_id \<rightharpoonup> event_id set) \<times> event_id list" where
  "add_auth_edges auth_diff eid [] gs = gs"
| "add_auth_edges auth_diff eid (aid # aids) gs =
     (if aid \<in> auth_diff
      then add_auth_edges auth_diff eid aids
             (setdefault_add (fst gs) eid aid,
              if aid \<notin> dom (fst gs) then aid # snd gs else snd gs)
      else add_auth_edges auth_diff eid aids gs)"

partial_function (option) add_event_and_auth_chain_to_graph_loop ::
  "'rv env \<Rightarrow> string \<Rightarrow> event_id set \<Rightarrow> event_id list \<Rightarrow> (event_id \<rightharpoonup> event_id set)
     \<Rightarrow> rstate \<Rightarrow> ((error + (event_id \<rightharpoonup> event_id set)) \<times> rstate) option" where
  "add_event_and_auth_chain_to_graph_loop E rid auth_diff stack graph s =
     (case stack of
        [] \<Rightarrow> Some (Inr graph, s)
      | eid # rest \<Rightarrow>
          (case get_event E rid eid False s of
             (Inl e, s') \<Rightarrow> Some (Inl e, s')
           | (Inr None, s') \<Rightarrow> Some (Inl AttributeError, s')
           | (Inr (Some ev), s') \<Rightarrow>
               (case add_auth_edges auth_diff eid (auth_event_ids ev)
                       (setdefault graph eid, rest) of
                  (graph', stack') \<Rightarrow>
                    add_event_and_auth_chain_to_graph_loop E rid auth_diff stack' graph' s')))"

definition add_event_and_auth_chain_to_graph ::
  "'rv env \<Rightarrow> (event_id \<rightharpoonup> event_id set) \<Rightarrow> string \<Rightarrow> event_id \<Rightarrow> event_id set
     \<Rightarrow> rstate \<Rightarrow> ((error + (event_id \<rightharpoonup> event_id set)) \<times> rstate) option" where
  "add_event_and_auth_chain_to_graph E graph rid eid auth_diff s =
     add_event_and_auth_chain_to_graph_loop E rid auth_diff [eid] graph s"

subsection \<open>\<open>lexicographical_topological_sort\<close>\<close>

text \<open>
  \<open>heapq\<close> is modelled by what it guarantees: the heap is a collection of entries and
  \<open>heappop\<close> removes and returns its least entry. Entries are pairs
  \<open>(key(node), node)\<close>, compared as Python compares tuples.
\<close>

definition heappush :: "'a list \<Rightarrow> 'a \<Rightarrow> 'a list" where
  "heappush h x = x # h"

definition heappop :: "('a::linorder) list \<Rightarrow> 'a \<times> 'a list" where
  "heappop h = (let m = Min (set h) in (m, remove1 m h))"

text \<open>The first loop: the nodes without edges, and the reverse graph.\<close>

fun lts_scan ::
  "('n \<Rightarrow> error + 'k) \<Rightarrow> ('n set \<Rightarrow> 'n list) \<Rightarrow> ('n \<times> 'n set) list
     \<Rightarrow> ('k \<times> 'n) list \<times> ('n \<rightharpoonup> 'n set) \<Rightarrow> error + ('k \<times> 'n) list \<times> ('n \<rightharpoonup> 'n set)" where
  "lts_scan key_fn it [] zr = Inr zr"
| "lts_scan key_fn it ((node, edges) # items) zr =
     (case (if edges = {}
            then (case key_fn node of Inl e \<Rightarrow> Inl e | Inr k \<Rightarrow> Inr (fst zr @ [(k, node)]))
            else Inr (fst zr)) of
        Inl e \<Rightarrow> Inl e
      | Inr zero_outdegree \<Rightarrow>
          lts_scan key_fn it items
            (zero_outdegree,
             fold (\<lambda>edge rg. setdefault_add rg edge node) (it edges) (setdefault (snd zr) node)))"

text \<open>The \<open>for parent in reverse_graph[node]\<close> loop.\<close>

fun lts_parents ::
  "('n \<Rightarrow> error + 'k) \<Rightarrow> 'n \<Rightarrow> 'n list \<Rightarrow> ('k \<times> 'n) list \<times> ('n \<rightharpoonup> 'n set)
     \<Rightarrow> error + ('k \<times> 'n) list \<times> ('n \<rightharpoonup> 'n set)" where
  "lts_parents key_fn node [] ho = Inr ho"
| "lts_parents key_fn node (parent # parents) ho =
     (case snd ho parent of
        None \<Rightarrow> Inl KeyError
      | Some out \<Rightarrow>
          if out - {node} = {}
          then (case key_fn parent of
                  Inl e \<Rightarrow> Inl e
                | Inr k \<Rightarrow>
                    lts_parents key_fn node parents
                      (heappush (fst ho) (k, parent), (snd ho)(parent \<mapsto> out - {node})))
          else lts_parents key_fn node parents (fst ho, (snd ho)(parent \<mapsto> out - {node})))"

text \<open>The \<open>while zero_outdegree\<close> loop; \<open>acc\<close> holds the nodes yielded so far, the
  last one first.\<close>

partial_function (option) lts_loop ::
  "('n \<Rightarrow> error + 'k::linorder) \<Rightarrow> ('n::linorder set \<Rightarrow> 'n list) \<Rightarrow> ('n \<rightharpoonup> 'n set)
     \<Rightarrow> ('k \<times> 'n) list \<Rightarrow> ('n \<rightharpoonup> 'n set) \<Rightarrow> 'n list \<Rightarrow> (error + 'n list) option" where
  "lts_loop key_fn it reverse_graph zero_outdegree outdegree_map acc =
     (if zero_outdegree = [] then Some (Inr (rev acc))
      else
        (case heappop zero_outdegree of
           (kn, heap) \<Rightarrow>
             (case reverse_graph (snd kn) of
                None \<Rightarrow> Some (Inl KeyError)
              | Some parents \<Rightarrow>
                  (case lts_parents key_fn (snd kn) (it parents) (heap, outdegree_map) of
                     Inl e \<Rightarrow> Some (Inl e)
                   | Inr ho \<Rightarrow>
                       lts_loop key_fn it reverse_graph (fst ho) (snd ho) (snd kn # acc)))))"

definition lexicographical_topological_sort ::
  "('n::linorder set \<Rightarrow> 'n list) \<Rightarrow> ('n \<rightharpoonup> 'n set) \<Rightarrow> ('n \<Rightarrow> error + 'k::linorder)
     \<Rightarrow> (error + 'n list) option" where
  "lexicographical_topological_sort it graph key_fn =
     (case lts_scan key_fn it
             (List.map_filter (\<lambda>node. map_option (Pair node) (graph node)) (it (dom graph)))
             ([], Map.empty) of
        Inl e \<Rightarrow> Some (Inl e)
      | Inr zr \<Rightarrow> lts_loop key_fn it (snd zr) (fst zr) graph [])"

subsection \<open>\<open>_reverse_topological_power_sort\<close>\<close>

text \<open>The first loop: every event id in turn is added to the graph.\<close>

fun add_all_to_graph ::
  "'rv env \<Rightarrow> string \<Rightarrow> event_id set \<Rightarrow> event_id list \<Rightarrow> (event_id \<rightharpoonup> event_id set)
     \<Rightarrow> rstate \<Rightarrow> ((error + (event_id \<rightharpoonup> event_id set)) \<times> rstate) option" where
  "add_all_to_graph E rid auth_diff [] graph s = Some (Inr graph, s)"
| "add_all_to_graph E rid auth_diff (eid # eids) graph s =
     (case add_event_and_auth_chain_to_graph E graph rid eid auth_diff s of
        None \<Rightarrow> None
      | Some (Inl e, s') \<Rightarrow> Some (Inl e, s')
      | Some (Inr graph', s') \<Rightarrow> add_all_to_graph E rid auth_diff eids graph' s')"

text \<open>The second loop: the power level of the sender of every node.\<close>

fun power_levels_of ::
  "'rv env \<Rightarrow> string \<Rightarrow> event_id list \<Rightarrow> (event_id \<rightharpoonup> int) \<Rightarrow> (event_id \<rightharpoonup> int) M" where
  "power_levels_of E rid [] event_to_pl s = (Inr event_to_pl, s)"
| "power_levels_of E rid (eid # eids) event_to_pl s =
     (case get_power_level_for_sender E rid eid s of
        (Inl e, s') \<Rightarrow> (Inl e, s')
      | (Inr pl, s') \<Rightarrow> power_levels_of E rid eids (event_to_pl(eid \<mapsto> pl)) s')"

text \<open>\<open>_get_power_order\<close>, the key of the sort.\<close>

definition get_power_order ::
  "(event_id \<rightharpoonup> event) \<Rightarrow> (event_id \<rightharpoonup> int) \<Rightarrow> event_id \<Rightarrow> error + int \<times> int \<times> event_id" where
  "get_power_order evmap event_to_pl eid =
     (case evmap eid of
        None \<Rightarrow> Inl KeyError
      | Some ev \<Rightarrow>
          (case event_to_pl eid of
             None \<Rightarrow> Inl KeyError
           | Some pl \<Rightarrow> Inr (- pl, origin_server_ts ev, eid)))"

definition reverse_topological_power_sort ::
  "iters \<Rightarrow> 'rv env \<Rightarrow> string \<Rightarrow> event_id list \<Rightarrow> event_id set
     \<Rightarrow> rstate \<Rightarrow> ((error + event_id list) \<times> rstate) option" where
  "reverse_topological_power_sort I E rid event_ids auth_diff s =
     (case add_all_to_graph E rid auth_diff event_ids Map.empty s of
        None \<Rightarrow> None
      | Some (Inl e, s1) \<Rightarrow> Some (Inl e, s1)
      | Some (Inr graph, s1) \<Rightarrow>
          (case power_levels_of E rid (iter_ids I (dom graph)) Map.empty s1 of
             (Inl e, s2) \<Rightarrow> Some (Inl e, s2)
           | (Inr event_to_pl, s2) \<Rightarrow>
               (case lexicographical_topological_sort (iter_ids I) graph
                       (get_power_order (event_map s2) event_to_pl) of
                  None \<Rightarrow> None
                | Some r \<Rightarrow> Some (r, s2))))"

subsection \<open>\<open>_iterative_auth_checks\<close>\<close>

text \<open>The auth events of the event, by \<open>(type, state_key)\<close>; a missing one is logged
  and skipped, a rejected one is left out.\<close>

fun auth_events_of_event ::
  "'rv env \<Rightarrow> string \<Rightarrow> event_id \<Rightarrow> event_id list \<Rightarrow> (state_key \<rightharpoonup> event)
     \<Rightarrow> (state_key \<rightharpoonup> event) M" where
  "auth_events_of_event E rid eid [] auth_events s = (Inr auth_events, s)"
| "auth_events_of_event E rid eid (aid # aids) auth_events s =
     (case get_event E rid aid True s of
        (Inl e, s') \<Rightarrow> (Inl e, s')
      | (Inr None, s') \<Rightarrow>
          auth_events_of_event E rid eid aids auth_events
            (s'\<lparr>warnings := warnings s' @ [(aid, eid)]\<rparr>)
      | (Inr (Some ev), s') \<Rightarrow>
          auth_events_of_event E rid eid aids
            (if rejected_reason ev = None then auth_events((etype ev, state_key ev) \<mapsto> ev)
             else auth_events) s')"

text \<open>The \<open>for key in event_auth.auth_types_for_event(event)\<close> loop.\<close>

fun auth_events_of_state ::
  "'rv env \<Rightarrow> string \<Rightarrow> statemap \<Rightarrow> state_key list \<Rightarrow> (state_key \<rightharpoonup> event)
     \<Rightarrow> (state_key \<rightharpoonup> event) M" where
  "auth_events_of_state E rid resolved_state [] auth_events s = (Inr auth_events, s)"
| "auth_events_of_state E rid resolved_state (k # ks) auth_events s =
     (case resolved_state k of
        None \<Rightarrow> auth_events_of_state E rid resolved_state ks auth_events s
      | Some ev_id \<Rightarrow>
          (case get_event E rid ev_id False s of
             (Inl e, s') \<Rightarrow> (Inl e, s')
           | (Inr None, s') \<Rightarrow> (Inl AttributeError, s')
           | (Inr (Some ev), s') \<Rightarrow>
               if rejected_reason ev = None
               then (case event_map s' ev_id of
                       None \<Rightarrow> (Inl KeyError, s')
                     | Some ev' \<Rightarrow>
                         auth_events_of_state E rid resolved_state ks (auth_events(k \<mapsto> ev')) s')
               else auth_events_of_state E rid resolved_state ks auth_events s'))"

text \<open>The body of the main loop, for one candidate event id.\<close>

definition auth_check_event ::
  "'rv env \<Rightarrow> string \<Rightarrow> 'rv \<Rightarrow> statemap \<Rightarrow> event_id \<Rightarrow> statemap M" where
  "auth_check_event E rid room_version_obj resolved_state eid s =
     (case event_map s eid of
        None \<Rightarrow> (Inl KeyError, s)
      | Some ev \<Rightarrow>
          (case auth_events_of_event E rid eid (auth_event_ids ev) Map.empty s of
             (Inl e, s1) \<Rightarrow> (Inl e, s1)
           | (Inr auth_events, s1) \<Rightarrow>
               (case auth_events_of_state E rid resolved_state (auth_types_for_event E ev)
                       auth_events s1 of
                  (Inl e, s2) \<Rightarrow> (Inl e, s2)
                | (Inr auth_events', s2) \<Rightarrow>
                    (case check E room_version_obj ev auth_events' of
                       Passed \<Rightarrow> (Inr (resolved_state((etype ev, state_key ev) \<mapsto> eid)), s2)
                     | AuthError \<Rightarrow> (Inr resolved_state, s2)
                     | OtherError x \<Rightarrow> (Inl (CheckError x), s2)))))"

fun iterative_auth_checks_loop ::
  "'rv env \<Rightarrow> string \<Rightarrow> 'rv \<Rightarrow> event_id list \<Rightarrow> statemap \<Rightarrow> statemap M" where
  "iterative_auth_checks_loop E rid room_version_obj [] resolved_state s =
     (Inr resolved_state, s)"
| "iterative_auth_checks_loop E rid room_version_obj (eid # eids) resolved_state s =
     (case auth_check_event E rid room_version_obj resolved_state eid s of
        (Inl e, s') \<Rightarrow> (Inl e, s')
      | (Inr resolved_state', s') \<Rightarrow>
          iterative_auth_checks_loop E rid room_version_obj eids resolved_state' s')"

definition iterative_auth_checks ::
  "'rv env \<Rightarrow> string \<Rightarrow> string \<Rightarrow> event_id list \<Rightarrow> statemap \<Rightarrow> statemap M" where
  "iterative_auth_checks E rid room_version event_ids base_state s =
     (case KNOWN_ROOM_VERSIONS E room_version of
        None \<Rightarrow> (Inl KeyError, s)
      | Some room_version_obj \<Rightarrow>
          iterative_auth_checks_loop E rid room_version_obj event_ids base_state s)"

subsection \<open>\<open>_mainline_sort\<close> and \<open>_get_mainline_depth_for_event\<close>\<close>

text \<open>
  The \<open>while pl\<close> loop that collects the mainline. \<open>pl\<close> is \<open>None\<close> or an event id;
  the loop also stops at the empty string, which Python takes for false.
\<close>

partial_function (option) mainline_loop ::
  "'rv env \<Rightarrow> string \<Rightarrow> event_id option \<Rightarrow> event_id list \<Rightarrow> rstate
     \<Rightarrow> ((error + event_id list) \<times> rstate) option" where
  "mainline_loop E rid pl mainline s =
     (case pl of
        None \<Rightarrow> Some (Inr mainline, s)
      | Some p \<Rightarrow>
          if p = [] then Some (Inr mainline, s)
          else
            (case get_event E rid p False s of
               (Inl e, s') \<Rightarrow> Some (Inl e, s')
             | (Inr None, s') \<Rightarrow> Some (Inl AttributeError, s')
             | (Inr (Some pl_ev), s') \<Rightarrow>
                 (case first_auth_event E rid (PowerLevels, []) (auth_event_ids pl_ev) s' of
                    (Inl e, s'') \<Rightarrow> Some (Inl e, s'')
                  | (Inr found, s'') \<Rightarrow>
                      mainline_loop E rid (map_option fst found) (mainline @ [p]) s'')))"

text \<open>\<open>{ev_id: i + 1 for i, ev_id in enumerate(reversed(mainline))}\<close>\<close>

definition mainline_map_of :: "event_id list \<Rightarrow> (event_id \<rightharpoonup> int)" where
  "mainline_map_of mainline =
     fold (\<lambda>(i, ev_id) m. m(ev_id \<mapsto> int i + 1)) (List.enumerate 0 (rev mainline)) Map.empty"

partial_function (option) get_mainline_depth_for_event_loop ::
  "'rv env \<Rightarrow> string \<Rightarrow> (event_id \<rightharpoonup> int) \<Rightarrow> event option \<Rightarrow> rstate
     \<Rightarrow> ((error + int) \<times> rstate) option" where
  "get_mainline_depth_for_event_loop E rid mainline_map evo s =
     (case evo of
        None \<Rightarrow> Some (Inr 0, s)
      | Some ev \<Rightarrow>
          (case mainline_map (event_id ev) of
             Some depth \<Rightarrow> Some (Inr depth, s)
           | None \<Rightarrow>
               (case first_auth_event E rid (PowerLevels, []) (auth_event_ids ev) s of
                  (Inl e, s') \<Rightarrow> Some (Inl e, s')
                | (Inr found, s') \<Rightarrow>
                    get_mainline_depth_for_event_loop E rid mainline_map
                      (map_option snd found) s')))"

definition get_mainline_depth_for_event ::
  "'rv env \<Rightarrow> event \<Rightarrow> (event_id \<rightharpoonup> int) \<Rightarrow> rstate \<Rightarrow> ((error + int) \<times> rstate) option" where
  "get_mainline_depth_for_event E ev mainline_map s =
     get_mainline_depth_for_event_loop E (room_id ev) mainline_map (Some ev) s"

text \<open>The loop that fills \<open>order_map\<close>.\<close>

fun order_map_of ::
  "'rv env \<Rightarrow> (event_id \<rightharpoonup> int) \<Rightarrow> event_id list \<Rightarrow> (event_id \<rightharpoonup> int \<times> int \<times> event_id)
     \<Rightarrow> rstate \<Rightarrow> ((error + (event_id \<rightharpoonup> int \<times> int \<times> event_id)) \<times> rstate) option" where
  "order_map_of E mainline_map [] order_map s = Some (Inr order_map, s)"
| "order_map_of E mainline_map (ev_id # ev_ids) order_map s =
     (case event_map s ev_id of
        None \<Rightarrow> Some (Inl KeyError, s)
      | Some ev \<Rightarrow>
          (case get_mainline_depth_for_event E ev mainline_map s of
             None \<Rightarrow> None
           | Some (Inl e, s') \<Rightarrow> Some (Inl e, s')
           | Some (Inr depth, s') \<Rightarrow>
               (case event_map s' ev_id of
                  None \<Rightarrow> Some (Inl KeyError, s')
                | Some ev' \<Rightarrow>
                    order_map_of E mainline_map ev_ids
                      (order_map(ev_id \<mapsto> (depth, origin_server_ts ev', ev_id))) s')))"

text \<open>\<open>event_ids.sort(key=lambda ev_id: order_map[ev_id])\<close>: a stable sort, which
  raises when a key is missing.\<close>

definition sort_by_order_map ::
  "(event_id \<rightharpoonup> int \<times> int \<times> event_id) \<Rightarrow> event_id list \<Rightarrow> error + event_id list" where
  "sort_by_order_map order_map event_ids =
     (if list_all (\<lambda>ev_id. order_map ev_id \<noteq> None) event_ids
      then Inr (sort_key (\<lambda>ev_id. the (order_map ev_id)) event_ids)
      else Inl KeyError)"

definition mainline_sort ::
  "'rv env \<Rightarrow> string \<Rightarrow> event_id list \<Rightarrow> event_id option \<Rightarrow> rstate
     \<Rightarrow> ((error + event_id list) \<times> rstate) option" where
  "mainline_sort E rid event_ids resolved_power_event_id s =
     (if event_ids = [] then Some (Inr [], s)
      else
        (case mainline_loop E rid resolved_power_event_id [] s of
           None \<Rightarrow> None
         | Some (Inl e, s1) \<Rightarrow> Some (Inl e, s1)
         | Some (Inr mainline, s1) \<Rightarrow>
             (case order_map_of E (mainline_map_of mainline) event_ids Map.empty s1 of
                None \<Rightarrow> None
              | Some (Inl e, s2) \<Rightarrow> Some (Inl e, s2)
              | Some (Inr order_map, s2) \<Rightarrow> Some (sort_by_order_map order_map event_ids, s2))))"

subsection \<open>\<open>resolve_events_with_store\<close>\<close>

text \<open>The check that everything in the event map is in the right room; \<open>None\<close> when
  the loop ends without raising.\<close>

fun check_rooms :: "string \<Rightarrow> event list \<Rightarrow> error option" where
  "check_rooms rid [] = None"
| "check_rooms rid (ev # evs) =
     (if room_id ev \<noteq> rid then Some (StateResWrongRoom rid (event_id ev) (room_id ev))
      else check_rooms rid evs)"

text \<open>
  Lines 90 to 96: the auth chain difference, and the union of the conflicted event
  ids with it.
\<close>

definition full_conflicted_set_of ::
  "'rv env \<Rightarrow> (state_key \<rightharpoonup> event_id set) \<Rightarrow> statemap list \<Rightarrow> event_id set" where
  "full_conflicted_set_of E conflicted_state state_sets =
     (let auth_diff = store_get_auth_chain_difference E (map ran state_sets)
      in \<Union> (ran conflicted_state) \<union> set auth_diff)"

text \<open>Lines 98 to 102: the events of the full conflicted set that are not in the event
  map are requested from the store, and \<open>event_map\<close> is updated with the answer.\<close>

definition bulk_fetch :: "'rv env \<Rightarrow> event_id set \<Rightarrow> rstate \<Rightarrow> rstate" where
  "bulk_fetch E full_conflicted_set s =
     (let events = store_get_events E |` {eid \<in> full_conflicted_set. eid \<notin> dom (event_map s)}
      in s\<lparr>event_map := event_map s ++ events\<rparr>)"

text \<open>
  Lines 112 to 174: what follows the room check. The generator \<open>power_events\<close> is
  consumed by the first loop of \<open>_reverse_topological_power_sort\<close>; the entries of
  \<open>event_map\<close> it reads are not changed by that loop, so it is given as a list.
\<close>

definition resolve_conflicted ::
  "iters \<Rightarrow> 'rv env \<Rightarrow> string \<Rightarrow> string \<Rightarrow> statemap \<Rightarrow> event_id set \<Rightarrow> rstate
     \<Rightarrow> ((error + statemap) \<times> rstate) option" where
  "resolve_conflicted I E rid room_version unconflicted_state fcs s1 =
     (let full_conflicted_set = {eid \<in> fcs. eid \<in> dom (event_map s1)};
          power_events =
            filter (\<lambda>eid. case event_map s1 eid of
                             None \<Rightarrow> False | Some ev \<Rightarrow> is_power_event ev)
              (iter_ids I full_conflicted_set)
      in
      case reverse_topological_power_sort I E rid power_events full_conflicted_set s1 of
        None \<Rightarrow> None
      | Some (Inl e, s2) \<Rightarrow> Some (Inl e, s2)
      | Some (Inr sorted_power_events, s2) \<Rightarrow>
          (case iterative_auth_checks E rid room_version sorted_power_events
                  unconflicted_state s2 of
             (Inl e, s3) \<Rightarrow> Some (Inl e, s3)
           | (Inr resolved_state, s3) \<Rightarrow>
               (let set_power_events = set sorted_power_events;
                    leftover_events =
                      filter (\<lambda>ev_id. ev_id \<notin> set_power_events)
                        (iter_ids I full_conflicted_set);
                    pl = resolved_state (PowerLevels, [])
                in
                case mainline_sort E rid leftover_events pl s3 of
                  None \<Rightarrow> None
                | Some (Inl e, s4) \<Rightarrow> Some (Inl e, s4)
                | Some (Inr leftover_events', s4) \<Rightarrow>
                    (case iterative_auth_checks E rid room_version leftover_events'
                            resolved_state s4 of
                       (Inl e, s5) \<Rightarrow> Some (Inl e, s5)
                     | (Inr resolved_state', s5) \<Rightarrow>
                         Some (Inr (resolved_state' ++ unconflicted_state), s5)))))"

text \<open>
  The entry point. \<open>event_map_arg\<close> is the caller's \<open>event_map\<close>, \<open>None\<close> or a dict;
  the result is the returned state map or the exception raised, with the event map and
  the log as the call leaves them, or \<open>None\<close> when the call does not return. The calls
  of \<open>logger.debug\<close> and \<open>clock.sleep(0)\<close> are left out.
\<close>

definition initial_state :: "(event_id \<rightharpoonup> event) option \<Rightarrow> rstate" where
  "initial_state event_map_arg =
     \<lparr>event_map = (case event_map_arg of None \<Rightarrow> Map.empty | Some m \<Rightarrow> m), warnings = []\<rparr>"

definition resolve_events_with_store ::
  "iters \<Rightarrow> 'rv env \<Rightarrow> string \<Rightarrow> string \<Rightarrow> statemap list \<Rightarrow> (event_id \<rightharpoonup> event) option
     \<Rightarrow> ((error + statemap) \<times> rstate) option" where
  "resolve_events_with_store I E rid room_version state_sets event_map_arg =
     (let s0 = initial_state event_map_arg;
          unconflicted_state = fst (seperate (iter_keys I) state_sets);
          conflicted_state = snd (seperate (iter_keys I) state_sets)
      in
      if conflicted_state = Map.empty then Some (Inr unconflicted_state, s0)
      else
        (let full_conflicted_set = full_conflicted_set_of E conflicted_state state_sets;
             s1 = bulk_fetch E full_conflicted_set s0
         in
         case check_rooms rid
                (List.map_filter (event_map s1) (iter_ids I (dom (event_map s1)))) of
           Some e \<Rightarrow> Some (Inl e, s1)
         | None \<Rightarrow>
             resolve_conflicted I E rid room_version unconflicted_state full_conflicted_set s1))"

subsection \<open>A small room, for the examples\<close>

text \<open>
  A room with a create event and two topic events, a store that holds them, an
  authorization predicate that lets everything pass, and iteration in sorted order.
\<close>

definition ex_event :: "string \<Rightarrow> string \<Rightarrow> string \<Rightarrow> int \<Rightarrow> string list \<Rightarrow> event" where
  "ex_event eid ty sk ts auths =
     \<lparr>event_id = eid, room_id = ''!room'', etype = ty, state_key = sk, sender = ''@alice'',
      content = [], origin_server_ts = ts, auth_event_ids = auths, rejected_reason = None,
      membership = None\<rparr>"

definition ex_store :: "event_id \<rightharpoonup> event" where
  "ex_store =
     [''$c'' \<mapsto> ex_event ''$c'' Create [] 1 [],
      ''$t1'' \<mapsto> ex_event ''$t1'' ''m.room.topic'' [] 2 [''$c''],
      ''$t2'' \<mapsto> ex_event ''$t2'' ''m.room.topic'' [] 3 [''$c'']]"

definition ex_env :: "unit env" where
  "ex_env =
     \<lparr>store_get_events = ex_store,
      store_get_auth_chain_difference = (\<lambda>sets. []),
      auth_types_for_event = (\<lambda>ev. []),
      check = (\<lambda>rv ev auth_events. Passed),
      KNOWN_ROOM_VERSIONS = [''1'' \<mapsto> ()],
      int_of_str = (\<lambda>str. None)\<rparr>"

definition ex_iters :: iters where
  "ex_iters = \<lparr>iter_keys = sorted_list_of_set, iter_ids = sorted_list_of_set\<rparr>"

text \<open>Two state sets that agree on the create event and disagree on the topic; the
  second pair names topic events that the store does not have.\<close>

definition ex_state_sets :: "statemap list" where
  "ex_state_sets =
     [[(Create, []) \<mapsto> ''$c'', (''m.room.topic'', []) \<mapsto> ''$t1''],
      [(Create, []) \<mapsto> ''$c'', (''m.room.topic'', []) \<mapsto> ''$t2'']]"

definition ex_state_sets_lost :: "statemap list" where
  "ex_state_sets_lost =
     [[(Create, []) \<mapsto> ''$c'', (''m.room.topic'', []) \<mapsto> ''$x1''],
      [(Create, []) \<mapsto> ''$c'', (''m.room.topic'', []) \<mapsto> ''$x2'']]"

text \<open>The state of the example after the bulk fetch, and at the end of the run.\<close>

definition ex_s1 :: rstate where
  "ex_s1 = \<lparr>event_map = [''$t1'' \<mapsto> ex_event ''$t1'' ''m.room.topic'' [] 2 [''$c''],
      ''$t2'' \<mapsto> ex_event ''$t2'' ''m.room.topic'' [] 3 [''$c'']], warnings = []\<rparr>"

definition ex_s2 :: rstate where
  "ex_s2 = \<lparr>event_map = [''$t1'' \<mapsto> ex_event ''$t1'' ''m.room.topic'' [] 2 [''$c''],
      ''$t2'' \<mapsto> ex_event ''$t2'' ''m.room.topic'' [] 3 [''$c''],
      ''$c'' \<mapsto> ex_event ''$c'' Create [] 1 []], warnings = []\<rparr>"

text \<open>An event of another room, as a caller might leave it in the event map.\<close>

definition ex_far :: event where
  "ex_far = (ex_event ''$far'' ''m.room.topic'' [] 4 [])\<lparr>room_id := ''!other''\<rparr>"

subsection \<open>What the claims speak of\<close>

text \<open>
  What the event loader finds for an id, wherever it is: the entry of \<open>event_map\<close>
  if there is one, else the store's.
\<close>

definition lookup :: "'rv env \<Rightarrow> rstate \<Rightarrow> (event_id \<rightharpoonup> event)" where
  "lookup E s = store_get_events E ++ event_map s"

text \<open>
  In the words of the spec: the first event with a given \<open>(type, state_key)\<close> that is
  found among a list of auth event ids, with its id.
\<close>

fun first_found ::
  "(event_id \<rightharpoonup> event) \<Rightarrow> state_key \<Rightarrow> event_id list \<Rightarrow> (event_id \<times> event) option" where
  "first_found lk k [] = None"
| "first_found lk k (aid # aids) =
     (case lk aid of
        None \<Rightarrow> first_found lk k aids
      | Some a \<Rightarrow> if (etype a, state_key a) = k then Some (aid, a) else first_found lk k aids)"

text \<open>
  In the words of the spec (4.5): the power level of the sender of an event. A key of a
  JSON object is present when it has a value other than \<open>null\<close>.
\<close>

definition present :: "(string \<times> json) list \<Rightarrow> string \<Rightarrow> bool" where
  "present d k \<longleftrightarrow> map_of d k \<noteq> None \<and> map_of d k \<noteq> Some JNull"

definition users_of :: "event \<Rightarrow> (string \<times> json) list" where
  "users_of pl = (case map_of (content pl) ''users'' of Some (JObj kvs) \<Rightarrow> kvs | _ \<Rightarrow> [])"

definition sender_power_level_spec ::
  "(string \<Rightarrow> int option) \<Rightarrow> (event_id \<rightharpoonup> event) \<Rightarrow> event \<Rightarrow> error + int" where
  "sender_power_level_spec to_int lk ev =
     (case first_found lk (PowerLevels, []) (auth_event_ids ev) of
        Some (aid, pl) \<Rightarrow>
          if present (users_of pl) (sender ev)
          then py_int to_int (the (map_of (users_of pl) (sender ev)))
          else if present (content pl) ''users_default''
          then py_int to_int (the (map_of (content pl) ''users_default''))
          else Inr 0
      | None \<Rightarrow>
          (case first_found lk (Create, []) (auth_event_ids ev) of
             Some (aid, cr) \<Rightarrow>
               if map_of (content cr) ''creator'' = Some (JStr (sender ev)) then Inr 100 else Inr 0
           | None \<Rightarrow> Inr 0))"

text \<open>Two more authorization predicates for the examples: one that refuses the first
  topic event and fails on the second.\<close>

definition ex_env_strict :: "unit env" where
  "ex_env_strict =
     ex_env\<lparr>check := (\<lambda>rv ev auth_events.
        if event_id ev = ''$t1'' then AuthError
        else if event_id ev = ''$t2'' then OtherError ''boom''
        else Passed)\<rparr>"

text \<open>A power levels event and a message that cites it, in a store of their own.\<close>

definition ex_pl :: event where
  "ex_pl = (ex_event ''$p'' PowerLevels [] 2 [''$c''])
     \<lparr>content := [(''users'', JObj [(''@alice'', JInt 50)]), (''users_default'', JInt 10)]\<rparr>"

definition ex_msg :: event where
  "ex_msg = ex_event ''$m'' ''m.room.message'' [] 6 [''$c'', ''$p'']"

definition ex_env_pl :: "unit env" where
  "ex_env_pl = ex_env\<lparr>store_get_events := ex_store(''$p'' \<mapsto> ex_pl, ''$m'' \<mapsto> ex_msg)\<rparr>"

text \<open>
  In the words of the spec (4.6): the graph of the power sort. Its nodes are the events
  reached from the starting ids through auth event ids that lie in \<open>auth_diff\<close>; the
  edges of a node are its auth event ids in \<open>auth_diff\<close>.
\<close>

definition auth_edges :: "(event_id \<rightharpoonup> event) \<Rightarrow> event_id set \<Rightarrow> event_id \<Rightarrow> event_id set" where
  "auth_edges lk auth_diff n =
     (case lk n of None \<Rightarrow> {} | Some ev \<Rightarrow> set (auth_event_ids ev) \<inter> auth_diff)"

definition auth_closure ::
  "(event_id \<rightharpoonup> event) \<Rightarrow> event_id set \<Rightarrow> event_id set \<Rightarrow> event_id set" where
  "auth_closure lk auth_diff starts = {(n, a). a \<in> auth_edges lk auth_diff n}\<^sup>* `` starts"

definition auth_graph ::
  "(event_id \<rightharpoonup> event) \<Rightarrow> event_id set \<Rightarrow> event_id set \<Rightarrow> (event_id \<rightharpoonup> event_id set)" where
  "auth_graph lk auth_diff starts =
     (\<lambda>n. if n \<in> auth_closure lk auth_diff starts then Some (auth_edges lk auth_diff n) else None)"

text \<open>
  A graph under construction is right so far when every node has exactly its edges and
  every edge leads to a node of the graph or to one that is still pending.
\<close>

definition graph_ok ::
  "(event_id \<rightharpoonup> event) \<Rightarrow> event_id set \<Rightarrow> (event_id \<rightharpoonup> event_id set) \<Rightarrow> event_id set \<Rightarrow> bool" where
  "graph_ok lk D g pending \<longleftrightarrow>
     (\<forall>n es. g n = Some es \<longrightarrow> es = auth_edges lk D n)
     \<and> (\<forall>n \<in> dom g. auth_edges lk D n \<subseteq> dom g \<union> pending)"






text \<open>
  In the words of the spec (4.8): the mainline is the chain obtained from the resolved
  power levels event by following, again and again, the first auth event that is a
  power levels event; it is numbered 1, 2, 3, ... from its oldest event. The depth of
  an event is the number of the first mainline event on its own chain, or 0 when the
  chain ends before it meets the mainline.
\<close>

definition pl_parent :: "(event_id \<rightharpoonup> event) \<Rightarrow> event_id \<Rightarrow> event_id option" where
  "pl_parent lk p =
     (case lk p of
        None \<Rightarrow> None
      | Some ev \<Rightarrow> map_option fst (first_found lk (PowerLevels, []) (auth_event_ids ev)))"

inductive mainline_of :: "(event_id \<rightharpoonup> event) \<Rightarrow> event_id option \<Rightarrow> event_id list \<Rightarrow> bool"
  for lk where
  mainline_end: "mainline_of lk None []"
| mainline_step: "mainline_of lk (pl_parent lk p) ml \<Longrightarrow> mainline_of lk (Some p) (p # ml)"

code_pred mainline_of .


inductive depth_of ::
  "(event_id \<rightharpoonup> event) \<Rightarrow> (event_id \<rightharpoonup> int) \<Rightarrow> event_id option \<Rightarrow> int \<Rightarrow> bool"
  for lk mm where
  depth_none: "depth_of lk mm None 0"
| depth_hit: "mm e = Some d \<Longrightarrow> depth_of lk mm (Some e) d"
| depth_step: "mm e = None \<Longrightarrow> depth_of lk mm (pl_parent lk e) d \<Longrightarrow> depth_of lk mm (Some e) d"

code_pred depth_of .


section \<open>Properties\<close>

subsection \<open>The separator\<close>

lemma is_enumD: "is_enum en \<Longrightarrow> finite S \<Longrightarrow> set (en S) = S \<and> distinct (en S)"
  by (simp add: is_enum_def)

lemma is_enum_sorted_list_of_set: "is_enum (sorted_list_of_set :: ('a::linorder) set \<Rightarrow> 'a list)"
  by (simp add: is_enum_def)

lemma the_image_minus_None: "the ` (A - {None}) = {e. Some e \<in> A}"
proof (rule set_eqI)
  fix e
  show "e \<in> the ` (A - {None}) \<longleftrightarrow> e \<in> {e. Some e \<in> A}"
  proof
    assume "e \<in> the ` (A - {None})"
    then obtain x where "x \<in> A" "x \<noteq> None" "e = the x" by blast
    then show "e \<in> {e. Some e \<in> A}" by (cases x) simp_all
  next
    assume "e \<in> {e. Some e \<in> A}"
    then have "Some e \<in> A - {None}" by simp
    then have "the (Some e) \<in> the ` (A - {None})" by (rule imageI)
    then show "e \<in> the ` (A - {None})" by simp
  qed
qed

lemma seperate_key_eq:
  "seperate_key ss a (u, c) =
     (if card ((\<lambda>s. s a) ` set ss) = 1
      then (u(a := hd (remdups (map (\<lambda>s. s a) ss))), c)
      else (u, c(a \<mapsto> {e. Some e \<in> (\<lambda>s. s a) ` set ss})))"
  by (simp add: seperate_key_def Let_def length_remdups_card_conv the_image_minus_None)

lemma fold_seperate_key_fst:
  "fst (fold (seperate_key ss) ks (u, c)) k =
     (if k \<in> set ks \<and> card ((\<lambda>s. s k) ` set ss) = 1
      then hd (remdups (map (\<lambda>s. s k) ss)) else u k)"
proof (induction ks arbitrary: u c)
  case Nil
  show ?case by simp
next
  case (Cons a ks)
  show ?case
    by (simp add: seperate_key_eq Cons.IH)
qed

lemma fold_seperate_key_snd:
  "snd (fold (seperate_key ss) ks (u, c)) k =
     (if k \<in> set ks \<and> card ((\<lambda>s. s k) ` set ss) \<noteq> 1
      then Some {e. Some e \<in> (\<lambda>s. s k) ` set ss} else c k)"
proof (induction ks arbitrary: u c)
  case Nil
  show ?case by simp
next
  case (Cons a ks)
  show ?case
    by (simp add: seperate_key_eq Cons.IH)
qed

lemma finite_state_keys:
  "\<forall>s \<in> set ss. finite (dom s) \<Longrightarrow> finite (\<Union>s \<in> set ss. dom s)"
  by simp

lemma seperate_unconflicted:
  assumes "is_enum en" and "\<forall>s \<in> set ss. finite (dom s)"
  shows "fst (seperate en ss) k =
     (if k \<in> (\<Union>s \<in> set ss. dom s) \<and> card ((\<lambda>s. s k) ` set ss) = 1
      then hd (remdups (map (\<lambda>s. s k) ss)) else None)"
proof -
  have "set (en (\<Union>s \<in> set ss. dom s)) = (\<Union>s \<in> set ss. dom s)"
    using assms is_enumD finite_state_keys by blast
  then show ?thesis
    by (simp add: seperate_def fold_seperate_key_fst)
qed

lemma seperate_conflicted:
  assumes "is_enum en" and "\<forall>s \<in> set ss. finite (dom s)"
  shows "snd (seperate en ss) k =
     (if k \<in> (\<Union>s \<in> set ss. dom s) \<and> card ((\<lambda>s. s k) ` set ss) \<noteq> 1
      then Some {e. Some e \<in> (\<lambda>s. s k) ` set ss} else None)"
proof -
  have "set (en (\<Union>s \<in> set ss. dom s)) = (\<Union>s \<in> set ss. dom s)"
    using assms is_enumD finite_state_keys by blast
  then show ?thesis
    by (simp add: seperate_def fold_seperate_key_snd)
qed

lemma hd_remdups_single:
  assumes "card (set xs) = 1"
  shows "set xs = {hd (remdups xs)}"
proof -
  from assms obtain x where x: "set xs = {x}"
    by (auto simp: card_1_singleton_iff)
  then have "set (remdups xs) = {x}" by simp
  moreover have "remdups xs \<noteq> []" using x by auto
  ultimately have "hd (remdups xs) = x"
    using hd_in_set [of "remdups xs"] by simp
  with x show ?thesis by simp
qed

text \<open>
  C7. For every key that appears in some input state set, with \<open>V\<close> the set of values
  the inputs give it (absence counted as \<open>None\<close>): the key is in exactly one of the two
  outputs; if \<open>V\<close> has one element, the key is unconflicted with that event id; otherwise
  it is conflicted with candidate set \<open>V\<close> without \<open>None\<close>; in particular a key that
  some input lacks is conflicted, even when all present values agree.
\<close>

theorem seperate_partitions_keys:
  assumes "is_enum en" and "\<forall>s \<in> set state_sets. finite (dom s)"
    and "k \<in> (\<Union>s \<in> set state_sets. dom s)"
  shows "((fst (seperate en state_sets) k = None) \<noteq> (snd (seperate en state_sets) k = None))
    \<and> (card ((\<lambda>s. s k) ` set state_sets) = 1 \<longrightarrow>
         (\<exists>e. (\<lambda>s. s k) ` set state_sets = {Some e} \<and> fst (seperate en state_sets) k = Some e)
         \<and> snd (seperate en state_sets) k = None)
    \<and> (card ((\<lambda>s. s k) ` set state_sets) \<noteq> 1 \<longrightarrow>
         fst (seperate en state_sets) k = None
         \<and> snd (seperate en state_sets) k = Some {e. Some e \<in> (\<lambda>s. s k) ` set state_sets})
    \<and> ((\<exists>s \<in> set state_sets. s k = None) \<longrightarrow>
         fst (seperate en state_sets) k = None
         \<and> snd (seperate en state_sets) k = Some {e. Some e \<in> (\<lambda>s. s k) ` set state_sets})"
proof -
  let ?V = "(\<lambda>s. s k) ` set state_sets"
  note u = seperate_unconflicted [OF assms(1,2), of k]
  note c = seperate_conflicted [OF assms(1,2), of k]
  from assms(3) obtain s0 e0 where s0: "s0 \<in> set state_sets" "s0 k = Some e0"
    by auto
  have single: "\<exists>e. ?V = {Some e} \<and> hd (remdups (map (\<lambda>s. s k) state_sets)) = Some e"
    if "card ?V = 1"
  proof -
    from that have "card (set (map (\<lambda>s. s k) state_sets)) = 1"
      unfolding set_map .
    then have "set (map (\<lambda>s. s k) state_sets) = {hd (remdups (map (\<lambda>s. s k) state_sets))}"
      by (rule hd_remdups_single)
    then have V: "?V = {hd (remdups (map (\<lambda>s. s k) state_sets))}"
      unfolding set_map .
    have "Some e0 \<in> ?V"
      by (rule image_eqI [where x = s0]) (simp_all add: s0)
    with V have "Some e0 \<in> {hd (remdups (map (\<lambda>s. s k) state_sets))}" by (rule subst)
    then have hdeq: "hd (remdups (map (\<lambda>s. s k) state_sets)) = Some e0" by simp
    have "?V = {Some e0}" using V unfolding hdeq .
    then show ?thesis using hdeq by (intro exI conjI)
  qed
  have absent: "card ?V \<noteq> 1" if "\<exists>s \<in> set state_sets. s k = None"
  proof
    assume "card ?V = 1"
    then obtain e where e: "?V = {Some e}" using single by blast
    from that obtain s1 where s1: "s1 \<in> set state_sets" "s1 k = None" by blast
    have "None \<in> ?V"
      by (rule image_eqI [where x = s1]) (simp_all add: s1)
    with e have "None \<in> {Some e}" by (rule subst)
    then show False by simp
  qed
  show ?thesis
  proof (cases "card ?V = 1")
    case True
    then obtain e where e: "?V = {Some e}" "hd (remdups (map (\<lambda>s. s k) state_sets)) = Some e"
      using single by blast
    from True absent have no: "\<not> (\<exists>s \<in> set state_sets. s k = None)" by blast
    from u True assms(3) e(2) have fu: "fst (seperate en state_sets) k = Some e" by simp
    from c True have sc: "snd (seperate en state_sets) k = None" by simp
    have 1: "(fst (seperate en state_sets) k = None) \<noteq> (snd (seperate en state_sets) k = None)"
      by (simp add: fu sc)
    have 2: "\<exists>e. ?V = {Some e} \<and> fst (seperate en state_sets) k = Some e"
      using e(1) fu by blast
    show ?thesis
      using 1 2 sc True no by blast
  next
    case False
    from u False have fu: "fst (seperate en state_sets) k = None" by simp
    from c False assms(3)
    have sc: "snd (seperate en state_sets) k = Some {e. Some e \<in> ?V}" by simp
    have 1: "(fst (seperate en state_sets) k = None) \<noteq> (snd (seperate en state_sets) k = None)"
      by (simp add: fu sc)
    show ?thesis
      using 1 fu sc False by blast
  qed
qed

theorem seperate_partitions_keys_witness:
  "is_enum (sorted_list_of_set :: state_key set \<Rightarrow> state_key list)
   \<and> finite (dom [(''m'', ''@a'') \<mapsto> ''e1''])
   \<and> (''m'', ''@a'') \<in> dom [(''m'', ''@a'') \<mapsto> ''e1'']
   \<and> fst (seperate sorted_list_of_set [[(''m'', ''@a'') \<mapsto> ''e1''], Map.empty]) (''m'', ''@a'') = None
   \<and> snd (seperate sorted_list_of_set [[(''m'', ''@a'') \<mapsto> ''e1''], Map.empty]) (''m'', ''@a'')
        = Some {''e1''}"
proof -
  let ?m = "[(''m'', ''@a'') \<mapsto> ''e1''] :: statemap"
  let ?ss = "[?m, Map.empty]"
  let ?k = "(''m'', ''@a'')"
  have en: "is_enum (sorted_list_of_set :: state_key set \<Rightarrow> state_key list)"
    by (rule is_enum_sorted_list_of_set)
  have fin: "\<forall>s \<in> set ?ss. finite (dom s)" by simp
  have k: "?k \<in> (\<Union>s \<in> set ?ss. dom s)" by simp
  have absent: "\<exists>s \<in> set ?ss. s ?k = None" by simp
  have V: "{e. Some e \<in> (\<lambda>s. s ?k) ` set ?ss} = {''e1''}" by auto
  from seperate_partitions_keys [OF en fin k] absent
  have "fst (seperate sorted_list_of_set ?ss) ?k = None"
    and "snd (seperate sorted_list_of_set ?ss) ?k = Some {e. Some e \<in> (\<lambda>s. s ?k) ` set ?ss}"
    by blast+
  then show ?thesis using en V by simp
qed

subsection \<open>The entry point: early return and overlay\<close>

lemma map_add_self: "m ++ m = m"
  by (rule ext) (simp add: map_add_def split: option.split)

lemma map_add_twice: "m ++ u ++ u = m ++ u"
  by (rule ext) (simp add: map_add_def split: option.split)

lemma resolve_conflicted_overlay:
  assumes "resolve_conflicted I E rid rv u fcs s1 = Some (Inr r, s')"
  shows "r ++ u = r"
  using assms unfolding resolve_conflicted_def Let_def
  by (auto split: option.splits prod.splits sum.splits simp: map_add_twice)

lemma resolve_result_overlay:
  assumes "resolve_events_with_store I E rid rv ss em = Some (Inr r, s')"
  shows "r ++ fst (seperate (iter_keys I) ss) = r"
proof (cases "snd (seperate (iter_keys I) ss) = Map.empty")
  case True
  with assms have "r = fst (seperate (iter_keys I) ss)"
    by (simp add: resolve_events_with_store_def Let_def)
  then show ?thesis by (simp add: map_add_self)
next
  case False
  with assms have "\<exists>fcs s1. resolve_conflicted I E rid rv (fst (seperate (iter_keys I) ss)) fcs s1
       = Some (Inr r, s')"
    unfolding resolve_events_with_store_def Let_def
    by (auto split: option.splits)
  then show ?thesis using resolve_conflicted_overlay by blast
qed

text \<open>
  C1. Whenever \<open>resolve_events_with_store\<close> returns a state map, every entry of the
  unconflicted state that \<open>_seperate\<close> computed is in it, unchanged, whatever the
  iterative auth checks did to that key.
\<close>

theorem unconflicted_state_kept:
  assumes "resolve_events_with_store I E rid room_version state_sets event_map_arg
             = Some (Inr r, s')"
    and "fst (seperate (iter_keys I) state_sets) k = Some e"
  shows "r k = Some e"
proof -
  have "r k = (r ++ fst (seperate (iter_keys I) state_sets)) k"
    using resolve_result_overlay [OF assms(1)] by simp
  with assms(2) show ?thesis by (simp add: map_add_Some_iff)
qed

lemma values_at_single:
  assumes "card ((\<lambda>s. s k) ` set ss) = 1" and "s \<in> set ss"
  shows "hd (remdups (map (\<lambda>s. s k) ss)) = s k"
proof -
  from assms(1) have "card (set (map (\<lambda>s. s k) ss)) = 1" unfolding set_map .
  then have "set (map (\<lambda>s. s k) ss) = {hd (remdups (map (\<lambda>s. s k) ss))}"
    by (rule hd_remdups_single)
  then have V: "(\<lambda>s. s k) ` set ss = {hd (remdups (map (\<lambda>s. s k) ss))}"
    unfolding set_map .
  have "s k \<in> (\<lambda>s. s k) ` set ss"
    by (rule image_eqI [where x = s]) (simp_all add: assms(2))
  with V have "s k \<in> {hd (remdups (map (\<lambda>s. s k) ss))}" by (rule subst)
  then show ?thesis by simp
qed

lemma not_in_keys_None:
  assumes "k \<notin> (\<Union>s \<in> set ss. dom s)" and "s \<in> set ss"
  shows "s k = None"
  using assms by (auto simp: dom_def)

lemma seperate_no_conflict_unconflicted:
  assumes en: "is_enum en" and fin: "\<forall>s \<in> set ss. finite (dom s)"
    and c: "snd (seperate en ss) = Map.empty" and s: "s \<in> set ss"
  shows "fst (seperate en ss) = s"
proof (rule ext)
  fix k
  show "fst (seperate en ss) k = s k"
  proof (cases "k \<in> (\<Union>s \<in> set ss. dom s)")
    case True
    have "snd (seperate en ss) k = None" using c by simp
    with True have one: "card ((\<lambda>s. s k) ` set ss) = 1"
      using seperate_conflicted [OF en fin, of k] by (simp split: if_splits)
    with True have "fst (seperate en ss) k = hd (remdups (map (\<lambda>s. s k) ss))"
      using seperate_unconflicted [OF en fin, of k] by simp
    also have "\<dots> = s k" using one s by (rule values_at_single)
    finally show ?thesis .
  next
    case False
    then have "fst (seperate en ss) k = None"
      using seperate_unconflicted [OF en fin, of k] by simp
    moreover have "s k = None" using False s by (rule not_in_keys_None)
    ultimately show ?thesis by simp
  qed
qed

lemma seperate_identical_no_conflict:
  assumes en: "is_enum en" and fin: "\<forall>s \<in> set ss. finite (dom s)"
    and same: "\<forall>t \<in> set ss. t = s"
  shows "snd (seperate en ss) = Map.empty"
proof (rule ext)
  fix k
  show "snd (seperate en ss) k = None"
  proof (cases "k \<in> (\<Union>s \<in> set ss. dom s)")
    case True
    then obtain t where t: "t \<in> set ss" by auto
    with same have "t = s" by blast
    with t have "s \<in> set ss" by simp
    with same have "set ss = {s}" by blast
    then have "(\<lambda>s. s k) ` set ss = {s k}" by simp
    then have "card ((\<lambda>s. s k) ` set ss) = 1" by simp
    then show ?thesis using seperate_conflicted [OF en fin, of k] by simp
  next
    case False
    then show ?thesis using seperate_conflicted [OF en fin, of k] by simp
  qed
qed

lemma resolve_no_conflict:
  assumes "snd (seperate (iter_keys I) ss) = Map.empty"
  shows "resolve_events_with_store I E rid rv ss em
           = Some (Inr (fst (seperate (iter_keys I) ss)), initial_state em)"
  using assms by (simp add: resolve_events_with_store_def Let_def)

text \<open>
  C2. When the conflicted state is empty, \<open>resolve_events_with_store\<close> returns the
  unconflicted state, which is each of the input state sets, and leaves the event map
  and the log as they were: the result is the same for every store. This is the case
  for a single state set and for a list of identical state sets.
\<close>

theorem no_conflict_returns_input:
  assumes "is_enum (iter_keys I)" and "\<forall>s \<in> set state_sets. finite (dom s)"
  shows "(snd (seperate (iter_keys I) state_sets) = Map.empty \<longrightarrow>
            resolve_events_with_store I E rid room_version state_sets event_map_arg
              = Some (Inr (fst (seperate (iter_keys I) state_sets)), initial_state event_map_arg)
            \<and> (\<forall>s \<in> set state_sets. fst (seperate (iter_keys I) state_sets) = s))
       \<and> (state_sets = [s0] \<longrightarrow>
            resolve_events_with_store I E rid room_version state_sets event_map_arg
              = Some (Inr s0, initial_state event_map_arg))
       \<and> (state_sets \<noteq> [] \<and> (\<forall>t \<in> set state_sets. t = s0) \<longrightarrow>
            resolve_events_with_store I E rid room_version state_sets event_map_arg
              = Some (Inr s0, initial_state event_map_arg))"
proof -
  have same: "resolve_events_with_store I E rid room_version state_sets event_map_arg
                = Some (Inr s0, initial_state event_map_arg)"
    if ne: "state_sets \<noteq> []" and all: "\<forall>t \<in> set state_sets. t = s0"
  proof -
    have c: "snd (seperate (iter_keys I) state_sets) = Map.empty"
      using assms all by (rule seperate_identical_no_conflict)
    from ne all have "s0 \<in> set state_sets" by (cases state_sets) auto
    with assms c have "fst (seperate (iter_keys I) state_sets) = s0"
      by (rule seperate_no_conflict_unconflicted)
    with resolve_no_conflict [OF c] show ?thesis by simp
  qed
  have a: "\<forall>s \<in> set state_sets. fst (seperate (iter_keys I) state_sets) = s"
    if "snd (seperate (iter_keys I) state_sets) = Map.empty"
    using seperate_no_conflict_unconflicted [OF assms that] by blast
  have b: "resolve_events_with_store I E rid room_version state_sets event_map_arg
             = Some (Inr s0, initial_state event_map_arg)" if "state_sets = [s0]"
  proof (rule same)
    show "state_sets \<noteq> []" using that by simp
    show "\<forall>t \<in> set state_sets. t = s0" using that by simp
  qed
  show ?thesis
  proof (intro conjI impI)
    assume "snd (seperate (iter_keys I) state_sets) = Map.empty"
    then show "resolve_events_with_store I E rid room_version state_sets event_map_arg
              = Some (Inr (fst (seperate (iter_keys I) state_sets)), initial_state event_map_arg)"
      by (rule resolve_no_conflict)
  next
    assume "snd (seperate (iter_keys I) state_sets) = Map.empty"
    then show "\<forall>s \<in> set state_sets. fst (seperate (iter_keys I) state_sets) = s"
      by (rule a)
  next
    assume "state_sets = [s0]"
    then show "resolve_events_with_store I E rid room_version state_sets event_map_arg
              = Some (Inr s0, initial_state event_map_arg)"
      by (rule b)
  next
    assume "state_sets \<noteq> [] \<and> (\<forall>t \<in> set state_sets. t = s0)"
    then show "resolve_events_with_store I E rid room_version state_sets event_map_arg
              = Some (Inr s0, initial_state event_map_arg)"
      using same by blast
  qed
qed

subsection \<open>The room check\<close>

lemma check_rooms_wrong:
  assumes "\<exists>ev \<in> set evs. room_id ev \<noteq> rid"
  shows "\<exists>eid' rid'. check_rooms rid evs = Some (StateResWrongRoom rid eid' rid')"
  using assms by (induction evs) auto

lemma set_map_filter_dom:
  assumes "set xs = dom m"
  shows "set (List.map_filter m xs) = ran m"
proof -
  have "set (List.map_filter m xs) = {y. \<exists>x \<in> set xs. m x = Some y}"
    by (auto simp: List.map_filter_def image_iff) force
  also have "\<dots> = ran m" using assms by (auto simp: ran_def)
  finally show ?thesis .
qed

text \<open>
  C10. When the conflicted state is not empty and some event of the event map, as it is
  after the bulk fetch, is in another room (whether the caller put it there or the store
  returned it, and whether or not anything refers to it), the call raises the exception
  of line 107 and returns no state.
\<close>

theorem wrong_room_in_event_map_is_fatal:
  assumes "is_enum (iter_ids I)"
    and "snd (seperate (iter_keys I) state_sets) \<noteq> Map.empty"
    and "s1 = bulk_fetch E
           (full_conflicted_set_of E (snd (seperate (iter_keys I) state_sets)) state_sets)
           (initial_state event_map_arg)"
    and "finite (dom (event_map s1))"
    and "event_map s1 eid = Some ev" and "room_id ev \<noteq> rid"
  shows "\<exists>eid' rid'.
           resolve_events_with_store I E rid room_version state_sets event_map_arg
             = Some (Inl (StateResWrongRoom rid eid' rid'), s1)"
proof -
  have "set (iter_ids I (dom (event_map s1))) = dom (event_map s1)"
    using assms(1,4) is_enumD by blast
  then have "set (List.map_filter (event_map s1) (iter_ids I (dom (event_map s1))))
               = ran (event_map s1)"
    by (rule set_map_filter_dom)
  moreover have "ev \<in> ran (event_map s1)" using assms(5) by (auto simp: ran_def)
  ultimately have "\<exists>ev \<in> set (List.map_filter (event_map s1) (iter_ids I (dom (event_map s1)))).
      room_id ev \<noteq> rid"
    using assms(6) by blast
  then obtain eid' rid' where
    "check_rooms rid (List.map_filter (event_map s1) (iter_ids I (dom (event_map s1))))
       = Some (StateResWrongRoom rid eid' rid')"
    using check_rooms_wrong by blast
  then have "resolve_events_with_store I E rid room_version state_sets event_map_arg
               = Some (Inl (StateResWrongRoom rid eid' rid'), s1)"
    using assms(2) unfolding resolve_events_with_store_def Let_def assms(3) [symmetric]
    by simp
  then show ?thesis by blast
qed

subsection \<open>The example run\<close>

lemma ex_iters_enum: "is_enum (iter_keys ex_iters)" "is_enum (iter_ids ex_iters)"
  by (simp_all add: ex_iters_def is_enum_sorted_list_of_set)

lemma ex_sorted_ids: "sorted_list_of_set {''$t1'', ''$t2''} = [''$t1'', ''$t2'']"
  by (simp add: sorted_list_of_set_insert_remove less_eq_char_def less_char_def)

lemma ex_finite: "\<forall>s \<in> set ex_state_sets. finite (dom s)"
  by (simp add: ex_state_sets_def)

lemma ex_keys:
  "(\<Union>s \<in> set ex_state_sets. dom s) = {(Create, []), (''m.room.topic'', [])}"
  by (auto simp: ex_state_sets_def Create_def)

lemma ex_unconflicted:
  "fst (seperate (iter_keys ex_iters) ex_state_sets) = [(Create, []) \<mapsto> ''$c'']"
proof (rule ext)
  fix k
  show "fst (seperate (iter_keys ex_iters) ex_state_sets) k = [(Create, []) \<mapsto> ''$c''] k"
    unfolding seperate_unconflicted [OF ex_iters_enum(1) ex_finite] ex_keys
    by (simp add: ex_state_sets_def Create_def)
qed

lemma ex_conflicted:
  "snd (seperate (iter_keys ex_iters) ex_state_sets)
     = [(''m.room.topic'', []) \<mapsto> {''$t1'', ''$t2''}]"
proof (rule ext)
  fix k
  show "snd (seperate (iter_keys ex_iters) ex_state_sets) k
     = [(''m.room.topic'', []) \<mapsto> {''$t1'', ''$t2''}] k"
    unfolding seperate_conflicted [OF ex_iters_enum(1) ex_finite] ex_keys
    by (auto simp: ex_state_sets_def Create_def)
qed

lemma ex_fcs:
  "full_conflicted_set_of ex_env [(''m.room.topic'', []) \<mapsto> {''$t1'', ''$t2''}]
     ex_state_sets = {''$t1'', ''$t2''}"
  by (simp add: full_conflicted_set_of_def ex_env_def)


lemma ex_fetch:
  "bulk_fetch ex_env {''$t1'', ''$t2''} (initial_state None) = ex_s1"
proof -
  have "ex_store |` {eid \<in> {''$t1'', ''$t2''}. eid \<notin> dom (Map.empty :: event_id \<rightharpoonup> event)}
     = [''$t1'' \<mapsto> ex_event ''$t1'' ''m.room.topic'' [] 2 [''$c''],
      ''$t2'' \<mapsto> ex_event ''$t2'' ''m.room.topic'' [] 3 [''$c'']]"
    by (rule ext) (simp add: restrict_map_def ex_store_def)
  then show ?thesis
    by (simp add: bulk_fetch_def initial_state_def ex_env_def ex_s1_def)
qed

lemma ex_check_rooms:
  "check_rooms ''!room'' (List.map_filter (event_map ex_s1) (iter_ids ex_iters (dom (event_map ex_s1)))) = None"
proof -
  have "dom (event_map ex_s1) = {''$t1'', ''$t2''}" by (auto simp: ex_s1_def)
  then show ?thesis
    by (simp add: ex_iters_def ex_sorted_ids List.map_filter_def)
      (simp add: ex_s1_def ex_event_def)
qed



lemma ex_get_c1: "get_event ex_env ''!room'' ''$c'' True ex_s1 = (Inr (Some (ex_event ''$c'' Create [] 1 [])), ex_s2)"
  by (simp add: get_event_def ex_s1_def ex_s2_def ex_env_def ex_store_def ex_event_def map_add_def restrict_map_def fun_eq_iff)

lemma ex_get_c2: "get_event ex_env ''!room'' ''$c'' True ex_s2 = (Inr (Some (ex_event ''$c'' Create [] 1 [])), ex_s2)"
  by (simp add: get_event_def ex_s2_def ex_event_def)

lemma ex_first1: "first_auth_event ex_env ''!room'' (PowerLevels, []) [''$c''] ex_s1 = (Inr None, ex_s2)"
  by (simp add: ex_get_c1) (simp add: ex_event_def PowerLevels_def Create_def)

lemma ex_first2: "first_auth_event ex_env ''!room'' (PowerLevels, []) [''$c''] ex_s2 = (Inr None, ex_s2)"
  by (simp add: ex_get_c2) (simp add: ex_event_def PowerLevels_def Create_def)

lemma ex_mainline_sort:
  "mainline_sort ex_env ''!room'' [''$t1'', ''$t2''] None ex_s1 = Some (Inr [''$t1'', ''$t2''], ex_s2)"
proof -
  have ml: "mainline_loop ex_env ''!room'' None [] ex_s1 = Some (Inr [], ex_s1)"
    by (simp add: mainline_loop.simps)
  have mm: "mainline_map_of [] = Map.empty"
    by (simp add: mainline_map_of_def enumerate_eq_zip)
  have e1: "event_map ex_s1 ''$t1'' = Some (ex_event ''$t1'' ''m.room.topic'' [] 2 [''$c''])"
    and e2: "event_map ex_s2 ''$t1'' = Some (ex_event ''$t1'' ''m.room.topic'' [] 2 [''$c''])"
    and e3: "event_map ex_s2 ''$t2'' = Some (ex_event ''$t2'' ''m.room.topic'' [] 3 [''$c''])"
    by (simp_all add: ex_s1_def ex_s2_def)
  have rm: "room_id (ex_event a b c d e) = ''!room''" "auth_event_ids (ex_event a b c d e) = e"
    "origin_server_ts (ex_event a b c d e) = d"
    for a b c d e by (simp_all add: ex_event_def)
  have d1: "get_mainline_depth_for_event ex_env (ex_event ''$t1'' ''m.room.topic'' [] 2 [''$c''])
      Map.empty ex_s1 = Some (Inr 0, ex_s2)"
    by (simp add: get_mainline_depth_for_event_def get_mainline_depth_for_event_loop.simps rm ex_get_c1)
  have d2: "get_mainline_depth_for_event ex_env (ex_event ''$t2'' ''m.room.topic'' [] 3 [''$c''])
      Map.empty ex_s2 = Some (Inr 0, ex_s2)"
    by (simp add: get_mainline_depth_for_event_def get_mainline_depth_for_event_loop.simps rm ex_get_c2)
  have om: "order_map_of ex_env Map.empty [''$t1'', ''$t2''] Map.empty ex_s1
     = Some (Inr [''$t1'' \<mapsto> (0, 2, ''$t1''), ''$t2'' \<mapsto> (0, 3, ''$t2'')], ex_s2)"
    by (simp add: e1 e2 e3 d1 d2 rm)
  have srt: "sort_by_order_map [''$t1'' \<mapsto> (0, 2, ''$t1''), ''$t2'' \<mapsto> (0, 3, ''$t2'')] [''$t1'', ''$t2'']
     = Inr [''$t1'', ''$t2'']"
    by (simp add: sort_by_order_map_def)
  show ?thesis
    by (simp add: mainline_sort_def ml mm om srt del: order_map_of.simps)
qed


lemma ex_power_sort:
  "reverse_topological_power_sort ex_iters ex_env ''!room'' [] {''$t1'', ''$t2''} ex_s1
     = Some (Inr [], ex_s1)"
  by (simp add: reverse_topological_power_sort_def lexicographical_topological_sort_def
        List.map_filter_def lts_loop.simps ex_iters_def)

lemma ex_auth_checks:
  "iterative_auth_checks ex_env ''!room'' ''1'' [''$t1'', ''$t2''] [(Create, []) \<mapsto> ''$c''] ex_s2
     = (Inr [(Create, []) \<mapsto> ''$c'', (''m.room.topic'', []) \<mapsto> ''$t2''], ex_s2)"
proof -
  have kv: "KNOWN_ROOM_VERSIONS ex_env ''1'' = Some ()" "auth_types_for_event ex_env = (\<lambda>ev. [])"
    "check ex_env = (\<lambda>rv ev auth_events. Passed)"
    by (simp_all add: ex_env_def)
  have e: "event_map ex_s2 ''$t1'' = Some (ex_event ''$t1'' ''m.room.topic'' [] 2 [''$c''])"
    "event_map ex_s2 ''$t2'' = Some (ex_event ''$t2'' ''m.room.topic'' [] 3 [''$c''])"
    by (simp_all add: ex_s2_def)
  have rm: "auth_event_ids (ex_event a b c d e) = e" "etype (ex_event a b c d e) = b"
    "state_key (ex_event a b c d e) = c" "rejected_reason (ex_event a b c d e) = None"
    for a b c d e by (simp_all add: ex_event_def)
  show ?thesis
    by (simp add: iterative_auth_checks_def kv auth_check_event_def e rm ex_get_c2)
qed

lemma ex_run:
  "resolve_events_with_store ex_iters ex_env ''!room'' ''1'' ex_state_sets None
     = Some (Inr [(Create, []) \<mapsto> ''$c'', (''m.room.topic'', []) \<mapsto> ''$t2''], ex_s2)"
proof -
  have fcs: "{eid \<in> {''$t1'', ''$t2''}. eid \<in> dom (event_map ex_s1)} = {''$t1'', ''$t2''}"
    by (auto simp: ex_s1_def)
  have it: "iter_ids ex_iters {''$t1'', ''$t2''} = [''$t1'', ''$t2'']"
    by (simp add: ex_iters_def ex_sorted_ids)
  have np: "filter (\<lambda>eid. case event_map ex_s1 eid of None \<Rightarrow> False | Some ev \<Rightarrow> is_power_event ev)
      [''$t1'', ''$t2''] = []"
    by (simp add: ex_s1_def ex_event_def is_power_event_def PowerLevels_def JoinRules_def
        Create_def Member_def)
  have a0: "iterative_auth_checks ex_env ''!room'' ''1'' [] [(Create, []) \<mapsto> ''$c''] ex_s1
     = (Inr [(Create, []) \<mapsto> ''$c''], ex_s1)"
    by (simp add: iterative_auth_checks_def ex_env_def)
  have ne: "PowerLevels \<noteq> Create" "Create \<noteq> ''m.room.topic''"
    by (simp_all add: PowerLevels_def Create_def)
  have "resolve_conflicted ex_iters ex_env ''!room'' ''1'' [(Create, []) \<mapsto> ''$c'']
          {''$t1'', ''$t2''} ex_s1
        = Some (Inr [(Create, []) \<mapsto> ''$c'', (''m.room.topic'', []) \<mapsto> ''$t2''], ex_s2)"
    unfolding resolve_conflicted_def Let_def fcs it np ex_power_sort
    by (simp add: a0 ne ex_mainline_sort ex_auth_checks)
      (auto simp: map_add_def fun_eq_iff ne)
  then show ?thesis
    by (simp add: resolve_events_with_store_def Let_def ex_conflicted ex_unconflicted
        ex_fcs ex_fetch ex_check_rooms)
qed


theorem unconflicted_state_kept_witness:
  "resolve_events_with_store ex_iters ex_env ''!room'' ''1'' ex_state_sets None
     = Some (Inr [(Create, []) \<mapsto> ''$c'', (''m.room.topic'', []) \<mapsto> ''$t2''], ex_s2)
   \<and> fst (seperate (iter_keys ex_iters) ex_state_sets) (Create, []) = Some ''$c''
   \<and> [(Create, []) \<mapsto> ''$c'', (''m.room.topic'', []) \<mapsto> ''$t2''] (Create, []) = Some ''$c''"
  using unconflicted_state_kept [OF ex_run, of "(Create, [])" "''$c''"]
  by (simp add: ex_run ex_unconflicted Create_def)

theorem no_conflict_returns_input_witness:
  "is_enum (iter_keys ex_iters)
   \<and> finite (dom [(Create, []) \<mapsto> ''$c''])
   \<and> snd (seperate (iter_keys ex_iters) [[(Create, []) \<mapsto> ''$c''], [(Create, []) \<mapsto> ''$c'']])
        = Map.empty
   \<and> resolve_events_with_store ex_iters ex_env ''!room'' ''1''
        [[(Create, []) \<mapsto> ''$c''], [(Create, []) \<mapsto> ''$c'']] None
        = Some (Inr [(Create, []) \<mapsto> ''$c''], initial_state None)
   \<and> resolve_events_with_store ex_iters ex_env ''!room'' ''1'' [[(Create, []) \<mapsto> ''$c'']] None
        = Some (Inr [(Create, []) \<mapsto> ''$c''], initial_state None)"
proof -
  let ?s = "[(Create, []) \<mapsto> ''$c''] :: statemap"
  have fin2: "\<forall>s \<in> set [?s, ?s]. finite (dom s)" and fin1: "\<forall>s \<in> set [?s]. finite (dom s)"
    by simp_all
  have same: "[?s, ?s] \<noteq> [] \<and> (\<forall>t \<in> set [?s, ?s]. t = ?s)" by simp
  note two = no_conflict_returns_input [OF ex_iters_enum(1) fin2,
      where ?s0.0 = ?s and E = ex_env and rid = "''!room''" and room_version = "''1''"
        and event_map_arg = None]
  note one = no_conflict_returns_input [OF ex_iters_enum(1) fin1,
      where ?s0.0 = ?s and E = ex_env and rid = "''!room''" and room_version = "''1''"
        and event_map_arg = None]
  have c: "snd (seperate (iter_keys ex_iters) [?s, ?s]) = Map.empty"
    using ex_iters_enum(1) fin2 by (rule seperate_identical_no_conflict [where s = ?s]) simp
  have r2: "resolve_events_with_store ex_iters ex_env ''!room'' ''1'' [?s, ?s] None
        = Some (Inr ?s, initial_state None)"
    using two same by blast
  have r1: "resolve_events_with_store ex_iters ex_env ''!room'' ''1'' [?s] None
        = Some (Inr ?s, initial_state None)"
    using one by blast
  show ?thesis using ex_iters_enum(1) c r1 r2 by simp
qed

lemma ex_far_fetch:
  "event_map (bulk_fetch ex_env
       (full_conflicted_set_of ex_env (snd (seperate (iter_keys ex_iters) ex_state_sets))
          ex_state_sets)
       (initial_state (Some [''$far'' \<mapsto> ex_far]))) ''$far'' = Some ex_far"
  unfolding ex_conflicted ex_fcs
  by (simp add: bulk_fetch_def initial_state_def map_add_def restrict_map_def)

lemma ex_far_finite:
  "finite (dom (event_map (bulk_fetch ex_env
       (full_conflicted_set_of ex_env (snd (seperate (iter_keys ex_iters) ex_state_sets))
          ex_state_sets)
       (initial_state (Some [''$far'' \<mapsto> ex_far])))))"
  unfolding ex_conflicted ex_fcs
  by (simp add: bulk_fetch_def initial_state_def)

theorem wrong_room_in_event_map_is_fatal_witness:
  "is_enum (iter_ids ex_iters)
   \<and> snd (seperate (iter_keys ex_iters) ex_state_sets) \<noteq> Map.empty
   \<and> room_id ex_far \<noteq> ''!room''
   \<and> (\<exists>eid' rid'.
        resolve_events_with_store ex_iters ex_env ''!room'' ''1'' ex_state_sets
          (Some [''$far'' \<mapsto> ex_far])
        = Some (Inl (StateResWrongRoom ''!room'' eid' rid'),
            bulk_fetch ex_env
              (full_conflicted_set_of ex_env (snd (seperate (iter_keys ex_iters) ex_state_sets))
                 ex_state_sets)
              (initial_state (Some [''$far'' \<mapsto> ex_far]))))"
proof -
  have ne: "snd (seperate (iter_keys ex_iters) ex_state_sets) \<noteq> Map.empty"
    by (simp add: ex_conflicted)
  have far: "room_id ex_far \<noteq> ''!room''" by (simp add: ex_far_def)
  from wrong_room_in_event_map_is_fatal [OF ex_iters_enum(2) ne refl ex_far_finite
      ex_far_fetch far]
  show ?thesis using ex_iters_enum(2) ne far by blast
qed

subsection \<open>The event loader\<close>

lemma get_event_result:
  "fst (get_event E rid eid a s) =
     (case lookup E s eid of
        None \<Rightarrow> if a then Inr None else Inl (UnknownEvent eid)
      | Some ev \<Rightarrow>
          if room_id ev \<noteq> rid then Inl (GetEventWrongRoom rid eid (room_id ev))
          else Inr (Some ev))"
  by (auto simp: get_event_def lookup_def Let_def map_add_def restrict_map_def dom_def
      split: option.splits)

lemma get_event_event_map:
  "event_map (snd (get_event E rid eid a s)) =
     (if eid \<in> dom (event_map s) then event_map s
      else event_map s ++ (store_get_events E |` {eid}))"
  by (auto simp: get_event_def Let_def split: option.splits)

lemma get_event_warnings: "warnings (snd (get_event E rid eid a s)) = warnings s"
  by (auto simp: get_event_def Let_def split: option.splits)

lemma get_event_lookup: "lookup E (snd (get_event E rid eid a s)) = lookup E s"
  unfolding lookup_def get_event_event_map
  by (rule ext) (auto simp: map_add_def restrict_map_def split: option.splits)

lemma get_event_loaded:
  "event_map (snd (get_event E rid eid a s)) eid = lookup E s eid"
  unfolding lookup_def get_event_event_map
  by (auto simp: map_add_def restrict_map_def dom_def split: option.splits)

lemma get_event_keeps:
  "event_map s x = Some ev \<Longrightarrow> event_map (snd (get_event E rid eid a s)) x = Some ev"
  unfolding get_event_event_map
  by (auto simp: map_add_def restrict_map_def dom_def split: option.splits)

lemma get_event_cases:
  obtains (err) e s' where "get_event E rid eid a s = (Inl e, s')"
  | (none) s' where "get_event E rid eid a s = (Inr None, s')" "lookup E s eid = None"
  | (some) ev s' where "get_event E rid eid a s = (Inr (Some ev), s')"
      "lookup E s eid = Some ev" "room_id ev = rid"
proof -
  obtain r s' where rs: "get_event E rid eid a s = (r, s')" by (cases "get_event E rid eid a s")
  have r: "r = fst (get_event E rid eid a s)" using rs by simp
  show ?thesis
  proof (cases r)
    case (Inl e)
    with rs show ?thesis using err by simp
  next
    case (Inr evo)
    show ?thesis
    proof (cases evo)
      case None
      with Inr r have "lookup E s eid = None"
        by (simp add: get_event_result split: option.splits if_splits)
      with None Inr rs show ?thesis using none by simp
    next
      case (Some ev)
      with Inr r have "lookup E s eid = Some ev \<and> room_id ev = rid"
        by (simp add: get_event_result split: option.splits if_splits)
      with Some Inr rs show ?thesis using some by simp
    qed
  qed
qed

lemma first_auth_event_ok:
  assumes "\<forall>aid \<in> set aids. \<forall>a. lookup E s aid = Some a \<longrightarrow> room_id a = rid"
  shows "fst (first_auth_event E rid k aids s) = Inr (first_found (lookup E s) k aids)"
  using assms
proof (induction aids arbitrary: s)
  case Nil
  show ?case by simp
next
  case (Cons aid aids)
  show ?case
  proof (cases rule: get_event_cases [of E rid aid True s])
    case (err e s')
    then have "fst (get_event E rid aid True s) = Inl e" by simp
    with Cons.prems show ?thesis
      by (simp add: get_event_result split: option.splits if_splits)
  next
    case (none s')
    have lk: "lookup E s' = lookup E s"
      using get_event_lookup [of E rid aid True s] none(1) by simp
    with Cons.prems have "fst (first_auth_event E rid k aids s') = Inr (first_found (lookup E s') k aids)"
      by (intro Cons.IH) simp
    with none lk show ?thesis by simp
  next
    case (some ev s')
    have lk: "lookup E s' = lookup E s"
      using get_event_lookup [of E rid aid True s] some(1) by simp
    with Cons.prems have "fst (first_auth_event E rid k aids s') = Inr (first_found (lookup E s') k aids)"
      by (intro Cons.IH) simp
    with some lk show ?thesis by simp
  qed
qed

lemma first_auth_event_lookup:
  "lookup E (snd (first_auth_event E rid k aids s)) = lookup E s"
proof (induction aids arbitrary: s)
  case Nil
  show ?case by simp
next
  case (Cons aid aids)
  have lk: "lookup E (snd (get_event E rid aid True s)) = lookup E s"
    by (rule get_event_lookup)
  show ?case
    by (cases "get_event E rid aid True s")
      (use lk Cons.IH in \<open>auto split: sum.splits option.splits\<close>)
qed


subsection \<open>The power level of a sender\<close>

lemma level_of_power_levels:
  assumes "map_of (content pl) ''users'' = None
           \<or> (\<exists>kvs. map_of (content pl) ''users'' = Some (JObj kvs))"
  shows "(case py_get_default (content pl) ''users'' (JObj []) of
            JObj users \<Rightarrow>
              (let level = py_get users snd_r;
                   level = (if level = JNull
                            then py_get_default (content pl) ''users_default'' (JInt 0)
                            else level)
               in if level = JNull then returnM 0
                  else (\<lambda>s. (py_int to_int level, s)))
          | _ \<Rightarrow> raiseM AttributeError) s
         = (if present (users_of pl) snd_r
            then py_int to_int (the (map_of (users_of pl) snd_r))
            else if present (content pl) ''users_default''
            then py_int to_int (the (map_of (content pl) ''users_default''))
            else Inr 0, s)"
  using assms
  by (auto simp: py_get_default_def py_get_def present_def users_of_def returnM_def Let_def
      split: option.splits)

lemma creator_check:
  "(py_get (content cr) ''creator'' = JStr x) \<longleftrightarrow> map_of (content cr) ''creator'' = Some (JStr x)"
  by (auto simp: py_get_def split: option.splits)

text \<open>
  C5. For an event that the loader finds in the room, whose auth events (as far as
  they are found) are in the room too, and whose power levels event (if one is found)
  has no \<open>users\<close> entry or an object there, \<open>_get_power_level_for_sender\<close> returns what
  the spec says: from the first power levels event found, \<open>int\<close> of the sender's entry
  in \<open>users\<close> if present, else \<open>int\<close> of \<open>users_default\<close> if present, else 0; if none is
  found, 100 or 0 as the first create event found names the sender as creator or not;
  and 0 if neither is found.
\<close>

theorem power_level_for_sender_as_specified:
  assumes ev: "lookup E s eid = Some ev" and room: "room_id ev = rid"
    and auth_rooms: "\<forall>aid \<in> set (auth_event_ids ev). \<forall>a. lookup E s aid = Some a \<longrightarrow> room_id a = rid"
    and users: "\<forall>aid pl. first_found (lookup E s) (PowerLevels, []) (auth_event_ids ev) = Some (aid, pl)
        \<longrightarrow> map_of (content pl) ''users'' = None
            \<or> (\<exists>kvs. map_of (content pl) ''users'' = Some (JObj kvs))"
  shows "fst (get_power_level_for_sender E rid eid s)
           = sender_power_level_spec (int_of_str E) (lookup E s) ev"
proof -
  obtain s1 where g: "get_event E rid eid False s = (Inr (Some ev), s1)"
  proof (cases rule: get_event_cases [of E rid eid False s])
    case (err e s')
    then have "fst (get_event E rid eid False s) = Inl e" by simp
    with ev room show ?thesis by (simp add: get_event_result)
  next
    case (none s')
    with ev show ?thesis by simp
  next
    case (some ev' s')
    with ev that show ?thesis by simp
  qed
  have lk1: "lookup E s1 = lookup E s"
    using get_event_lookup [of E rid eid False s] g by simp
  obtain r2 s2 where f: "first_auth_event E rid (PowerLevels, []) (auth_event_ids ev) s1 = (r2, s2)"
    by (cases "first_auth_event E rid (PowerLevels, []) (auth_event_ids ev) s1")
  have r2: "r2 = Inr (first_found (lookup E s) (PowerLevels, []) (auth_event_ids ev))"
    using first_auth_event_ok [of "auth_event_ids ev" E s1 rid "(PowerLevels, [])"] auth_rooms f lk1
    by simp
  have lk2: "lookup E s2 = lookup E s"
    using first_auth_event_lookup [of E rid "(PowerLevels, [])" "auth_event_ids ev" s1] f lk1
    by simp
  show ?thesis
  proof (cases "first_found (lookup E s) (PowerLevels, []) (auth_event_ids ev)")
    case None
    obtain r3 s3 where c: "first_auth_event E rid (Create, []) (auth_event_ids ev) s2 = (r3, s3)"
      by (cases "first_auth_event E rid (Create, []) (auth_event_ids ev) s2")
    have r3: "r3 = Inr (first_found (lookup E s) (Create, []) (auth_event_ids ev))"
      using first_auth_event_ok [of "auth_event_ids ev" E s2 rid "(Create, [])"] auth_rooms c lk2
      by simp
    show ?thesis
      by (simp add: get_power_level_for_sender_def bindM_def g f r2 None c r3
          sender_power_level_spec_def returnM_def creator_check split: option.splits)
  next
    case (Some found)
    obtain aid pl where found: "found = (aid, pl)" by (cases found)
    with Some users have u: "map_of (content pl) ''users'' = None
           \<or> (\<exists>kvs. map_of (content pl) ''users'' = Some (JObj kvs))"
      by blast
    show ?thesis
      by (simp add: get_power_level_for_sender_def bindM_def g f r2 Some found
          sender_power_level_spec_def level_of_power_levels [OF u])
  qed
qed

subsection \<open>The iterative auth checks\<close>

lemma iterative_auth_checks_loop_append:
  "iterative_auth_checks_loop E rid rv (pre @ post) base s =
     (case iterative_auth_checks_loop E rid rv pre base s of
        (Inl e, s') \<Rightarrow> (Inl e, s')
      | (Inr rs, s') \<Rightarrow> iterative_auth_checks_loop E rid rv post rs s')"
  by (induction pre arbitrary: base s) (auto split: prod.splits sum.splits)

lemma auth_events_of_event_total:
  assumes "\<forall>aid \<in> set aids. \<forall>a. lookup E s aid = Some a \<longrightarrow> room_id a = rid"
  shows "\<exists>ae s'. auth_events_of_event E rid eid aids ae0 s = (Inr ae, s')
           \<and> warnings s' = warnings s
                @ map (\<lambda>aid. (aid, eid)) (filter (\<lambda>aid. lookup E s aid = None) aids)"
  using assms
proof (induction aids arbitrary: s ae0)
  case Nil
  show ?case by simp
next
  case (Cons aid aids)
  show ?case
  proof (cases rule: get_event_cases [of E rid aid True s])
    case (err e s')
    then have "fst (get_event E rid aid True s) = Inl e" by simp
    with Cons.prems show ?thesis
      by (simp add: get_event_result split: option.splits if_splits)
  next
    case (none s')
    have lk: "lookup E s' = lookup E s" and w: "warnings s' = warnings s"
      using get_event_lookup [of E rid aid True s] get_event_warnings [of E rid aid True s] none(1)
      by simp_all
    let ?s = "s'\<lparr>warnings := warnings s' @ [(aid, eid)]\<rparr>"
    have lk': "lookup E ?s = lookup E s" using lk by (simp add: lookup_def)
    with Cons.prems have "\<exists>ae s''. auth_events_of_event E rid eid aids ae0 ?s = (Inr ae, s'')
           \<and> warnings s'' = warnings ?s
                @ map (\<lambda>aid. (aid, eid)) (filter (\<lambda>aid. lookup E ?s aid = None) aids)"
      by (intro Cons.IH) simp
    with none lk' w show ?thesis by simp
  next
    case (some ev s')
    have lk: "lookup E s' = lookup E s" and w: "warnings s' = warnings s"
      using get_event_lookup [of E rid aid True s] get_event_warnings [of E rid aid True s] some(1)
      by simp_all
    let ?ae = "if rejected_reason ev = None then ae0((etype ev, state_key ev) \<mapsto> ev) else ae0"
    from Cons.prems lk have "\<exists>ae s''. auth_events_of_event E rid eid aids ?ae s' = (Inr ae, s'')
           \<and> warnings s'' = warnings s'
                @ map (\<lambda>aid. (aid, eid)) (filter (\<lambda>aid. lookup E s' aid = None) aids)"
      by (intro Cons.IH) simp
    with some lk w show ?thesis by simp
  qed
qed

text \<open>
  C8. In \<open>_iterative_auth_checks\<close>, when the candidates before \<open>eid\<close> have been
  processed: if the check passes for \<open>eid\<close>, the loop goes on with the running state
  updated at the event's \<open>(type, state_key)\<close>; if it raises \<open>AuthError\<close>, the loop goes
  on with the running state unchanged; if it raises anything else, the loop ends with
  that exception. An auth event id that cannot be loaded does not make the collection of
  the auth events fail: it is logged and skipped.
\<close>

theorem iterative_auth_checks_outcomes:
  assumes "iterative_auth_checks_loop E rid rv pre base s0 = (Inr resolved_state, s)"
    and "event_map s eid = Some ev"
    and "auth_events_of_event E rid eid (auth_event_ids ev) Map.empty s = (Inr auth_events, s1)"
    and "auth_events_of_state E rid resolved_state (auth_types_for_event E ev) auth_events s1
           = (Inr auth_events', s2)"
  shows "(check E rv ev auth_events' = Passed \<longrightarrow>
            iterative_auth_checks_loop E rid rv (pre @ eid # post) base s0
              = iterative_auth_checks_loop E rid rv post
                  (resolved_state((etype ev, state_key ev) \<mapsto> eid)) s2)
       \<and> (check E rv ev auth_events' = AuthError \<longrightarrow>
            iterative_auth_checks_loop E rid rv (pre @ eid # post) base s0
              = iterative_auth_checks_loop E rid rv post resolved_state s2)
       \<and> (\<forall>x. check E rv ev auth_events' = OtherError x \<longrightarrow>
            iterative_auth_checks_loop E rid rv (pre @ eid # post) base s0
              = (Inl (CheckError x), s2))
       \<and> ((\<forall>aid \<in> set aids. \<forall>a. lookup E s aid = Some a \<longrightarrow> room_id a = rid) \<longrightarrow>
            (\<exists>ae s'. auth_events_of_event E rid eid aids ae0 s = (Inr ae, s')
               \<and> warnings s' = warnings s
                    @ map (\<lambda>aid. (aid, eid)) (filter (\<lambda>aid. lookup E s aid = None) aids)))"
proof -
  have step: "auth_check_event E rid rv resolved_state eid s =
      (case check E rv ev auth_events' of
         Passed \<Rightarrow> (Inr (resolved_state((etype ev, state_key ev) \<mapsto> eid)), s2)
       | AuthError \<Rightarrow> (Inr resolved_state, s2)
       | OtherError x \<Rightarrow> (Inl (CheckError x), s2))"
    by (simp add: auth_check_event_def assms(2,3,4))
  have loop: "iterative_auth_checks_loop E rid rv (pre @ eid # post) base s0
      = (case auth_check_event E rid rv resolved_state eid s of
           (Inl e, s') \<Rightarrow> (Inl e, s')
         | (Inr rs, s') \<Rightarrow> iterative_auth_checks_loop E rid rv post rs s')"
    by (simp add: iterative_auth_checks_loop_append assms(1))
  show ?thesis
  proof (intro conjI impI allI)
    assume "check E rv ev auth_events' = Passed"
    then show "iterative_auth_checks_loop E rid rv (pre @ eid # post) base s0
              = iterative_auth_checks_loop E rid rv post
                  (resolved_state((etype ev, state_key ev) \<mapsto> eid)) s2"
      by (simp add: loop step)
  next
    assume "check E rv ev auth_events' = AuthError"
    then show "iterative_auth_checks_loop E rid rv (pre @ eid # post) base s0
              = iterative_auth_checks_loop E rid rv post resolved_state s2"
      by (simp add: loop step)
  next
    fix x
    assume "check E rv ev auth_events' = OtherError x"
    then show "iterative_auth_checks_loop E rid rv (pre @ eid # post) base s0
              = (Inl (CheckError x), s2)"
      by (simp add: loop step)
  next
    assume "\<forall>aid \<in> set aids. \<forall>a. lookup E s aid = Some a \<longrightarrow> room_id a = rid"
    then show "\<exists>ae s'. auth_events_of_event E rid eid aids ae0 s = (Inr ae, s')
               \<and> warnings s' = warnings s
                    @ map (\<lambda>aid. (aid, eid)) (filter (\<lambda>aid. lookup E s aid = None) aids)"
      by (rule auth_events_of_event_total)
  qed
qed


theorem power_level_for_sender_as_specified_witness:
  "lookup ex_env_pl (initial_state None) ''$m'' = Some ex_msg
   \<and> room_id ex_msg = ''!room''
   \<and> first_found (lookup ex_env_pl (initial_state None)) (PowerLevels, []) (auth_event_ids ex_msg)
        = Some (''$p'', ex_pl)
   \<and> fst (get_power_level_for_sender ex_env_pl ''!room'' ''$m'' (initial_state None)) = Inr 50"
proof -
  let ?s = "initial_state None"
  have lk: "lookup ex_env_pl ?s = ex_store(''$p'' \<mapsto> ex_pl, ''$m'' \<mapsto> ex_msg)"
    by (simp add: lookup_def ex_env_pl_def ex_env_def initial_state_def)
  have ev: "lookup ex_env_pl ?s ''$m'' = Some ex_msg" by (simp add: lk)
  have room: "room_id ex_msg = ''!room''" by (simp add: ex_msg_def ex_event_def)
  have aids: "auth_event_ids ex_msg = [''$c'', ''$p'']" by (simp add: ex_msg_def ex_event_def)
  have c: "lookup ex_env_pl ?s ''$c'' = Some (ex_event ''$c'' Create [] 1 [])"
    and p: "lookup ex_env_pl ?s ''$p'' = Some ex_pl"
    by (simp_all add: lk ex_store_def)
  have auth_rooms: "\<forall>aid \<in> set (auth_event_ids ex_msg). \<forall>a.
      lookup ex_env_pl ?s aid = Some a \<longrightarrow> room_id a = ''!room''"
    by (auto simp: aids c p ex_event_def ex_pl_def)
  have ff: "first_found (lookup ex_env_pl ?s) (PowerLevels, []) (auth_event_ids ex_msg)
        = Some (''$p'', ex_pl)"
    by (simp add: aids c p) (simp add: ex_event_def ex_pl_def PowerLevels_def Create_def)
  have users: "\<forall>aid pl. first_found (lookup ex_env_pl ?s) (PowerLevels, []) (auth_event_ids ex_msg)
        = Some (aid, pl)
        \<longrightarrow> map_of (content pl) ''users'' = None
            \<or> (\<exists>kvs. map_of (content pl) ''users'' = Some (JObj kvs))"
    by (simp add: ff ex_pl_def)
  have "sender_power_level_spec (int_of_str ex_env_pl) (lookup ex_env_pl ?s) ex_msg = Inr 50"
    by (simp add: sender_power_level_spec_def ff)
      (simp add: present_def users_of_def ex_pl_def ex_msg_def ex_event_def)
  with power_level_for_sender_as_specified [OF ev room auth_rooms users]
  show ?thesis using ev room ff by simp
qed

lemma ex_strict_get_c:
  "get_event ex_env_strict ''!room'' ''$c'' True ex_s2
     = (Inr (Some (ex_event ''$c'' Create [] 1 [])), ex_s2)"
  by (simp add: get_event_def ex_s2_def ex_event_def)

theorem iterative_auth_checks_outcomes_witness:
  "iterative_auth_checks_loop ex_env_strict ''!room'' () ([] @ ''$t1'' # [''$t2''])
      [(Create, []) \<mapsto> ''$c''] ex_s2
     = iterative_auth_checks_loop ex_env_strict ''!room'' () [''$t2'']
         [(Create, []) \<mapsto> ''$c''] ex_s2
   \<and> iterative_auth_checks_loop ex_env_strict ''!room'' () ([] @ ''$t2'' # [])
        [(Create, []) \<mapsto> ''$c''] ex_s2
     = (Inl (CheckError ''boom''), ex_s2)
   \<and> iterative_auth_checks_loop ex_env_strict ''!room'' () ([] @ ''$c'' # []) Map.empty ex_s2
     = iterative_auth_checks_loop ex_env_strict ''!room'' () [] [(Create, []) \<mapsto> ''$c''] ex_s2
   \<and> (\<exists>ae s'. auth_events_of_event ex_env_strict ''!room'' ''$t1'' [''$gone''] Map.empty ex_s2
                 = (Inr ae, s')
             \<and> warnings s' = [(''$gone'', ''$t1'')])"
proof -
  let ?u = "[(Create, []) \<mapsto> ''$c''] :: statemap"
  let ?c = "ex_event ''$c'' Create [] 1 []"
  let ?t1 = "ex_event ''$t1'' ''m.room.topic'' [] 2 [''$c'']"
  let ?t2 = "ex_event ''$t2'' ''m.room.topic'' [] 3 [''$c'']"
  have start: "iterative_auth_checks_loop ex_env_strict ''!room'' () [] b ex_s2 = (Inr b, ex_s2)"
    for b by simp
  have e: "event_map ex_s2 ''$t1'' = Some ?t1" "event_map ex_s2 ''$t2'' = Some ?t2"
    "event_map ex_s2 ''$c'' = Some ?c"
    by (simp_all add: ex_s2_def)
  have f: "auth_event_ids (ex_event a b c d e) = e" "etype (ex_event a b c d e) = b"
    "state_key (ex_event a b c d e) = c" "rejected_reason (ex_event a b c d e) = None"
    "event_id (ex_event a b c d e) = a"
    for a b c d e by (simp_all add: ex_event_def)
  have ae1: "auth_events_of_event ex_env_strict ''!room'' x (auth_event_ids ?t1) Map.empty ex_s2
      = (Inr [(Create, []) \<mapsto> ?c], ex_s2)" for x
    by (simp add: ex_strict_get_c f)
  have ae2: "auth_events_of_event ex_env_strict ''!room'' x (auth_event_ids ?t2) Map.empty ex_s2
      = (Inr [(Create, []) \<mapsto> ?c], ex_s2)" for x
    by (simp add: ex_strict_get_c f)
  have aec: "auth_events_of_event ex_env_strict ''!room'' x (auth_event_ids ?c) Map.empty ex_s2
      = (Inr Map.empty, ex_s2)" for x
    by (simp add: f)
  have ty: "auth_types_for_event ex_env_strict = (\<lambda>ev. [])"
    by (simp add: ex_env_strict_def ex_env_def)
  have st: "auth_events_of_state ex_env_strict ''!room'' rs (auth_types_for_event ex_env_strict ev) a ex_s2
      = (Inr a, ex_s2)" for rs ev a
    by (simp add: ty)
  have ck: "check ex_env_strict () ?t1 a = AuthError" "check ex_env_strict () ?t2 a = OtherError ''boom''"
    "check ex_env_strict () ?c a = Passed" for a
    by (simp_all add: ex_env_strict_def f)
  have gone: "\<forall>aid \<in> set [''$gone'']. \<forall>a. lookup ex_env_strict ex_s2 aid = Some a \<longrightarrow> room_id a = ''!room''"
    and gone': "lookup ex_env_strict ex_s2 ''$gone'' = None"
    by (simp_all add: lookup_def ex_env_strict_def ex_env_def ex_store_def ex_s2_def map_add_def)
  note t1 = iterative_auth_checks_outcomes [OF start e(1) ae1 st,
      where post = "[''$t2'']" and aids = "[''$gone'']" and ?ae0.0 = Map.empty]
  note t2 = iterative_auth_checks_outcomes [OF start e(2) ae2 st,
      where post = "[]" and aids = "[]" and ?ae0.0 = Map.empty]
  note tc = iterative_auth_checks_outcomes [OF start e(3) aec st,
      where post = "[]" and aids = "[]" and ?ae0.0 = Map.empty]
  have 1: "iterative_auth_checks_loop ex_env_strict ''!room'' () ([] @ ''$t1'' # [''$t2'']) ?u ex_s2
     = iterative_auth_checks_loop ex_env_strict ''!room'' () [''$t2''] ?u ex_s2"
    using t1 [of ?u] ck(1) by blast
  have 2: "iterative_auth_checks_loop ex_env_strict ''!room'' () ([] @ ''$t2'' # []) ?u ex_s2
     = (Inl (CheckError ''boom''), ex_s2)"
    using t2 [of ?u] ck(2) by blast
  have 3: "iterative_auth_checks_loop ex_env_strict ''!room'' () ([] @ ''$c'' # []) Map.empty ex_s2
     = iterative_auth_checks_loop ex_env_strict ''!room'' () [] ?u ex_s2"
    using tc [of Map.empty] ck(3) by (simp add: f)
  have w: "warnings ex_s2 = []" by (simp add: ex_s2_def)
  from t1 [of ?u] gone
  have "\<exists>ae s'. auth_events_of_event ex_env_strict ''!room'' ''$t1'' [''$gone''] Map.empty ex_s2
                 = (Inr ae, s')
      \<and> warnings s' = warnings ex_s2 @ map (\<lambda>aid. (aid, ''$t1''))
           (filter (\<lambda>aid. lookup ex_env_strict ex_s2 aid = None) [''$gone''])"
    by blast
  then have 4: "\<exists>ae s'. auth_events_of_event ex_env_strict ''!room'' ''$t1'' [''$gone''] Map.empty ex_s2
                 = (Inr ae, s') \<and> warnings s' = [(''$gone'', ''$t1'')]"
    by (simp add: gone' w del: auth_events_of_event.simps)
  show ?thesis
    using 1 2 3 4 by (intro conjI)
qed

subsection \<open>The graph of the power sort\<close>

lemma add_auth_edges_fst:
  "g eid = Some S \<Longrightarrow>
     fst (add_auth_edges D eid aids (g, st)) = g(eid \<mapsto> S \<union> (set aids \<inter> D))"
proof (induction aids arbitrary: g st S)
  case Nil
  then show ?case by (simp add: fun_upd_idem)
next
  case (Cons aid aids)
  show ?case
  proof (cases "aid \<in> D")
    case True
    let ?g = "setdefault_add g eid aid"
    have g': "?g eid = Some (insert aid S)"
      using Cons.prems by (simp add: setdefault_add_def)
    have "fst (add_auth_edges D eid aids (?g, st')) = ?g(eid \<mapsto> insert aid S \<union> (set aids \<inter> D))"
      for st' using g' by (rule Cons.IH)
    moreover have "?g(eid \<mapsto> insert aid S \<union> (set aids \<inter> D)) = g(eid \<mapsto> S \<union> (set (aid # aids) \<inter> D))"
      using True by (simp add: setdefault_add_def)
    ultimately show ?thesis using True by simp
  next
    case False
    have "fst (add_auth_edges D eid aids (g, st)) = g(eid \<mapsto> S \<union> (set aids \<inter> D))"
      using Cons.prems by (rule Cons.IH)
    with False show ?thesis by simp
  qed
qed

lemma add_auth_edges_snd:
  "eid \<in> dom g \<Longrightarrow>
     set (snd (add_auth_edges D eid aids (g, st)))
       = set st \<union> {aid \<in> set aids. aid \<in> D \<and> aid \<notin> dom g}"
proof (induction aids arbitrary: g st)
  case Nil
  show ?case by simp
next
  case (Cons aid aids)
  show ?case
  proof (cases "aid \<in> D")
    case True
    let ?g = "setdefault_add g eid aid"
    have d: "dom ?g = dom g" using Cons.prems by (auto simp: setdefault_add_def)
    then have "eid \<in> dom ?g" using Cons.prems by simp
    then have "set (snd (add_auth_edges D eid aids (?g, st')))
       = set st' \<union> {a \<in> set aids. a \<in> D \<and> a \<notin> dom g}" for st'
      using Cons.IH [of ?g st'] d by simp
    with True show ?thesis by auto
  next
    case False
    have "set (snd (add_auth_edges D eid aids (g, st)))
       = set st \<union> {aid \<in> set aids. aid \<in> D \<and> aid \<notin> dom g}"
      using Cons.prems by (rule Cons.IH)
    with False show ?thesis by auto
  qed
qed

lemma setdefault_dom: "dom (setdefault g k) = insert k (dom g)"
  by (auto simp: setdefault_def split: option.splits)

lemma setdefault_other: "n \<noteq> k \<Longrightarrow> setdefault g k n = g n"
  by (simp add: setdefault_def split: option.splits)

lemma setdefault_at: "setdefault g k k = Some (case g k of None \<Rightarrow> {} | Some S \<Rightarrow> S)"
  by (simp add: setdefault_def split: option.splits)

lemma graph_step:
  assumes ok: "graph_ok lk D g (insert eid (set rest))"
    and ev: "lk eid = Some ev"
    and step: "add_auth_edges D eid (auth_event_ids ev) (setdefault g eid, rest) = (g', stack')"
  shows "graph_ok lk D g' (set stack')"
    and "dom g' = insert eid (dom g)"
    and "set stack' = set rest \<union> (auth_edges lk D eid - insert eid (dom g))"
proof -
  let ?g1 = "setdefault g eid"
  let ?S = "case g eid of None \<Rightarrow> {} | Some S \<Rightarrow> S"
  have E: "auth_edges lk D eid = set (auth_event_ids ev) \<inter> D"
    using ev by (simp add: auth_edges_def)
  have g1: "?g1 eid = Some ?S" by (rule setdefault_at)
  have S: "?S \<subseteq> auth_edges lk D eid"
    using ok by (auto simp: graph_ok_def split: option.splits)
  have g': "g' = ?g1(eid \<mapsto> ?S \<union> (set (auth_event_ids ev) \<inter> D))"
    using add_auth_edges_fst [of ?g1 eid ?S D "auth_event_ids ev" rest] g1 step by simp
  have in1: "eid \<in> dom ?g1" by (simp add: setdefault_dom)
  have st: "set stack' = set rest \<union> {aid \<in> set (auth_event_ids ev). aid \<in> D \<and> aid \<notin> dom ?g1}"
    using add_auth_edges_snd [of eid ?g1 D "auth_event_ids ev" rest] in1 step by simp
  show dom: "dom g' = insert eid (dom g)"
    by (simp add: g' setdefault_dom)
  show stk: "set stack' = set rest \<union> (auth_edges lk D eid - insert eid (dom g))"
    unfolding st E setdefault_dom by auto
  have at: "g' eid = Some (auth_edges lk D eid)"
    using S by (auto simp: g' E)
  have other: "g' n = g n" if "n \<noteq> eid" for n
    using that by (simp add: g' setdefault_other)
  show "graph_ok lk D g' (set stack')"
    unfolding graph_ok_def
  proof (intro conjI allI impI ballI)
    fix n es
    assume "g' n = Some es"
    then show "es = auth_edges lk D n"
      using ok at other [of n] by (cases "n = eid") (auto simp: graph_ok_def)
  next
    fix n
    assume n: "n \<in> dom g'"
    show "auth_edges lk D n \<subseteq> dom g' \<union> set stack'"
    proof (cases "n = eid")
      case True
      then show ?thesis unfolding dom stk by auto
    next
      case False
      with n dom have "n \<in> dom g" by auto
      with ok have "auth_edges lk D n \<subseteq> dom g \<union> insert eid (set rest)"
        by (simp add: graph_ok_def)
      then show ?thesis unfolding dom stk by auto
    qed
  qed
qed


lemma graph_loop_state:
  assumes ret: "add_event_and_auth_chain_to_graph_loop E rid D stack graph s = Some y"
  shows "lookup E (snd y) = lookup E s \<and> warnings (snd y) = warnings s
    \<and> (\<forall>x ev. event_map s x = Some ev \<longrightarrow> event_map (snd y) x = Some ev)
    \<and> (\<forall>g. fst y = Inr g \<longrightarrow>
          (\<forall>n \<in> dom g. n \<in> dom graph \<or> (\<exists>ev. event_map (snd y) n = Some ev \<and> room_id ev = rid)))"
proof (rule add_event_and_auth_chain_to_graph_loop.raw_induct
    [where P = "\<lambda>E rid D stack graph s y.
      lookup E (snd y) = lookup E s \<and> warnings (snd y) = warnings s
      \<and> (\<forall>x ev. event_map s x = Some ev \<longrightarrow> event_map (snd y) x = Some ev)
      \<and> (\<forall>g. fst y = Inr g \<longrightarrow>
          (\<forall>n \<in> dom g. n \<in> dom graph \<or> (\<exists>ev. event_map (snd y) n = Some ev \<and> room_id ev = rid)))",
     OF _ ret])
  fix f :: "'a env \<Rightarrow> string \<Rightarrow> event_id set \<Rightarrow> event_id list \<Rightarrow> (event_id \<rightharpoonup> event_id set)
      \<Rightarrow> rstate \<Rightarrow> ((error + (event_id \<rightharpoonup> event_id set)) \<times> rstate) option"
    and E :: "'a env" and rid D stack graph s y
  assume IH: "\<And>E rid D stack graph s y. f E rid D stack graph s = Some y \<Longrightarrow>
      lookup E (snd y) = lookup E s \<and> warnings (snd y) = warnings s
      \<and> (\<forall>x ev. event_map s x = Some ev \<longrightarrow> event_map (snd y) x = Some ev)
      \<and> (\<forall>g. fst y = Inr g \<longrightarrow>
          (\<forall>n \<in> dom g. n \<in> dom graph \<or> (\<exists>ev. event_map (snd y) n = Some ev \<and> room_id ev = rid)))"
  assume body: "(case stack of
        [] \<Rightarrow> Some (Inr graph, s)
      | eid # rest \<Rightarrow>
          (case get_event E rid eid False s of
             (Inl e, s') \<Rightarrow> Some (Inl e, s')
           | (Inr None, s') \<Rightarrow> Some (Inl AttributeError, s')
           | (Inr (Some ev), s') \<Rightarrow>
               (case add_auth_edges D eid (auth_event_ids ev) (setdefault graph eid, rest) of
                  (graph', stack') \<Rightarrow> f E rid D stack' graph' s'))) = Some y"
  show "lookup E (snd y) = lookup E s \<and> warnings (snd y) = warnings s
      \<and> (\<forall>x ev. event_map s x = Some ev \<longrightarrow> event_map (snd y) x = Some ev)
      \<and> (\<forall>g. fst y = Inr g \<longrightarrow>
          (\<forall>n \<in> dom g. n \<in> dom graph \<or> (\<exists>ev. event_map (snd y) n = Some ev \<and> room_id ev = rid)))"
  proof (cases stack)
    case Nil
    with body show ?thesis by auto
  next
    case (Cons eid rest)
    have lk: "lookup E (snd (get_event E rid eid False s)) = lookup E s"
      and wn: "warnings (snd (get_event E rid eid False s)) = warnings s"
      and kp: "\<And>x ev. event_map s x = Some ev
                 \<Longrightarrow> event_map (snd (get_event E rid eid False s)) x = Some ev"
      by (rule get_event_lookup, rule get_event_warnings, rule get_event_keeps)
    show ?thesis
    proof (cases rule: get_event_cases [of E rid eid False s])
      case (err e s')
      with body Cons lk wn kp show ?thesis by auto
    next
      case (none s')
      with body Cons lk wn kp show ?thesis by auto
    next
      case (some ev s1)
      obtain g' stack' where step:
        "add_auth_edges D eid (auth_event_ids ev) (setdefault graph eid, rest) = (g', stack')"
        by (cases "add_auth_edges D eid (auth_event_ids ev) (setdefault graph eid, rest)")
      with body Cons some have f: "f E rid D stack' g' s1 = Some y" by simp
      note ih = IH [OF f]
      have ld: "event_map s1 eid = Some ev"
        using get_event_loaded [of E rid eid False s] some by simp
      have d: "dom g' = insert eid (dom graph)"
        using add_auth_edges_fst [of "setdefault graph eid" eid
            "case graph eid of None \<Rightarrow> {} | Some S \<Rightarrow> S" D "auth_event_ids ev" rest]
          step setdefault_at [of graph eid]
        by (simp add: setdefault_dom)
      have s1: "lookup E s1 = lookup E s" "warnings s1 = warnings s"
        "\<And>x ev. event_map s x = Some ev \<Longrightarrow> event_map s1 x = Some ev"
        using lk wn kp some(1) by simp_all
      have keep_eid: "event_map (snd y) eid = Some ev" using ih ld by blast
      show ?thesis
      proof (intro conjI allI impI ballI)
        show "lookup E (snd y) = lookup E s" using ih s1 by simp
        show "warnings (snd y) = warnings s" using ih s1 by simp
      next
        fix x ev' assume "event_map s x = Some ev'"
        then have "event_map s1 x = Some ev'" by (rule s1(3))
        then show "event_map (snd y) x = Some ev'" using ih by blast
      next
        fix g n assume g: "fst y = Inr g" and n: "n \<in> dom g"
        from ih g n have "n \<in> dom g' \<or> (\<exists>ev. event_map (snd y) n = Some ev \<and> room_id ev = rid)"
          by blast
        then show "n \<in> dom graph \<or> (\<exists>ev. event_map (snd y) n = Some ev \<and> room_id ev = rid)"
          using d keep_eid some(3) by auto
      qed
    qed
  qed
qed

lemma graph_loop_correct:
  assumes ret: "add_event_and_auth_chain_to_graph_loop E rid D stack graph s = Some y"
  shows "\<forall>g. fst y = Inr g \<longrightarrow> graph_ok (lookup E s) D graph (set stack) \<longrightarrow>
      graph_ok (lookup E s) D g {} \<and> dom graph \<union> set stack \<subseteq> dom g
      \<and> (\<forall>K. dom graph \<union> set stack \<subseteq> K \<and> (\<forall>n \<in> K. auth_edges (lookup E s) D n \<subseteq> K)
            \<longrightarrow> dom g \<subseteq> K)"
proof (rule add_event_and_auth_chain_to_graph_loop.raw_induct
    [where P = "\<lambda>E rid D stack graph s y.
      \<forall>g. fst y = Inr g \<longrightarrow> graph_ok (lookup E s) D graph (set stack) \<longrightarrow>
      graph_ok (lookup E s) D g {} \<and> dom graph \<union> set stack \<subseteq> dom g
      \<and> (\<forall>K. dom graph \<union> set stack \<subseteq> K \<and> (\<forall>n \<in> K. auth_edges (lookup E s) D n \<subseteq> K)
            \<longrightarrow> dom g \<subseteq> K)",
     OF _ ret])
  fix f :: "'a env \<Rightarrow> string \<Rightarrow> event_id set \<Rightarrow> event_id list \<Rightarrow> (event_id \<rightharpoonup> event_id set)
      \<Rightarrow> rstate \<Rightarrow> ((error + (event_id \<rightharpoonup> event_id set)) \<times> rstate) option"
    and E :: "'a env" and rid D stack graph s y
  assume IH: "\<And>E rid D stack graph s y. f E rid D stack graph s = Some y \<Longrightarrow>
      \<forall>g. fst y = Inr g \<longrightarrow> graph_ok (lookup E s) D graph (set stack) \<longrightarrow>
      graph_ok (lookup E s) D g {} \<and> dom graph \<union> set stack \<subseteq> dom g
      \<and> (\<forall>K. dom graph \<union> set stack \<subseteq> K \<and> (\<forall>n \<in> K. auth_edges (lookup E s) D n \<subseteq> K)
            \<longrightarrow> dom g \<subseteq> K)"
  assume body: "(case stack of
        [] \<Rightarrow> Some (Inr graph, s)
      | eid # rest \<Rightarrow>
          (case get_event E rid eid False s of
             (Inl e, s') \<Rightarrow> Some (Inl e, s')
           | (Inr None, s') \<Rightarrow> Some (Inl AttributeError, s')
           | (Inr (Some ev), s') \<Rightarrow>
               (case add_auth_edges D eid (auth_event_ids ev) (setdefault graph eid, rest) of
                  (graph', stack') \<Rightarrow> f E rid D stack' graph' s'))) = Some y"
  show "\<forall>g. fst y = Inr g \<longrightarrow> graph_ok (lookup E s) D graph (set stack) \<longrightarrow>
      graph_ok (lookup E s) D g {} \<and> dom graph \<union> set stack \<subseteq> dom g
      \<and> (\<forall>K. dom graph \<union> set stack \<subseteq> K \<and> (\<forall>n \<in> K. auth_edges (lookup E s) D n \<subseteq> K)
            \<longrightarrow> dom g \<subseteq> K)"
  proof (cases stack)
    case Nil
    with body show ?thesis by auto
  next
    case (Cons eid rest)
    show ?thesis
    proof (cases rule: get_event_cases [of E rid eid False s])
      case (err e s')
      with body Cons show ?thesis by auto
    next
      case (none s')
      with body Cons show ?thesis by auto
    next
      case (some ev s1)
      obtain g' stack' where step:
        "add_auth_edges D eid (auth_event_ids ev) (setdefault graph eid, rest) = (g', stack')"
        by (cases "add_auth_edges D eid (auth_event_ids ev) (setdefault graph eid, rest)")
      with body Cons some have f: "f E rid D stack' g' s1 = Some y" by simp
      have lk: "lookup E s1 = lookup E s"
        using get_event_lookup [of E rid eid False s] some(1) by simp
      note ih = IH [OF f, unfolded lk]
      show ?thesis
      proof (intro allI impI)
        fix g
        assume g: "fst y = Inr g" and ok: "graph_ok (lookup E s) D graph (set stack)"
        from ok Cons have ok': "graph_ok (lookup E s) D graph (insert eid (set rest))" by simp
        note st = graph_step [OF ok' some(2) step]
        from ih g st(1) have res: "graph_ok (lookup E s) D g {}" "dom g' \<union> set stack' \<subseteq> dom g"
          and least: "\<And>K. dom g' \<union> set stack' \<subseteq> K \<Longrightarrow> (\<forall>n \<in> K. auth_edges (lookup E s) D n \<subseteq> K)
            \<Longrightarrow> dom g \<subseteq> K"
          by blast+
        have sub: "dom graph \<union> set stack \<subseteq> dom g"
          using res(2) st(2,3) Cons by auto
        have least': "dom g \<subseteq> K"
          if K: "dom graph \<union> set stack \<subseteq> K" "\<forall>n \<in> K. auth_edges (lookup E s) D n \<subseteq> K" for K
        proof (rule least)
          have "eid \<in> K" using K(1) Cons by auto
          then have "auth_edges (lookup E s) D eid \<subseteq> K" using K(2) by blast
          then show "dom g' \<union> set stack' \<subseteq> K" using K(1) st(2,3) Cons by auto
          show "\<forall>n \<in> K. auth_edges (lookup E s) D n \<subseteq> K" by (rule K(2))
        qed
        show "graph_ok (lookup E s) D g {} \<and> dom graph \<union> set stack \<subseteq> dom g
          \<and> (\<forall>K. dom graph \<union> set stack \<subseteq> K \<and> (\<forall>n \<in> K. auth_edges (lookup E s) D n \<subseteq> K)
            \<longrightarrow> dom g \<subseteq> K)"
          using res(1) sub least' by blast
      qed
    qed
  qed
qed


lemma graph_ok_mono: "graph_ok lk D g P \<Longrightarrow> P \<subseteq> Q \<Longrightarrow> graph_ok lk D g Q"
  unfolding graph_ok_def by blast

lemma add_all_to_graph_correct:
  assumes "add_all_to_graph E rid D starts graph s = Some (Inr g, s')"
    and "graph_ok (lookup E s) D graph {}"
  shows "graph_ok (lookup E s) D g {} \<and> dom graph \<union> set starts \<subseteq> dom g
      \<and> (\<forall>K. dom graph \<union> set starts \<subseteq> K \<and> (\<forall>n \<in> K. auth_edges (lookup E s) D n \<subseteq> K)
            \<longrightarrow> dom g \<subseteq> K)
      \<and> lookup E s' = lookup E s \<and> warnings s' = warnings s
      \<and> (\<forall>x ev. event_map s x = Some ev \<longrightarrow> event_map s' x = Some ev)
      \<and> (\<forall>n \<in> dom g. n \<in> dom graph \<or> (\<exists>ev. event_map s' n = Some ev \<and> room_id ev = rid))"
  using assms
proof (induction starts arbitrary: graph s)
  case Nil
  then show ?case by auto
next
  case (Cons start starts)
  from Cons.prems(1) obtain g1 s1 where
    one: "add_event_and_auth_chain_to_graph_loop E rid D [start] graph s = Some (Inr g1, s1)"
    and rest: "add_all_to_graph E rid D starts g1 s1 = Some (Inr g, s')"
    by (auto simp: add_event_and_auth_chain_to_graph_def split: option.splits sum.splits)
  have ok1: "graph_ok (lookup E s) D graph (set [start])"
    using Cons.prems(2) by (rule graph_ok_mono) simp
  from graph_loop_correct [OF one] ok1
  have g1: "graph_ok (lookup E s) D g1 {}" "dom graph \<union> set [start] \<subseteq> dom g1"
    and least1: "\<And>K. dom graph \<union> set [start] \<subseteq> K \<Longrightarrow> (\<forall>n \<in> K. auth_edges (lookup E s) D n \<subseteq> K)
            \<Longrightarrow> dom g1 \<subseteq> K"
    by auto
  from graph_loop_state [OF one]
  have s1: "lookup E s1 = lookup E s" "warnings s1 = warnings s"
    and keep1: "\<And>x ev. event_map s x = Some ev \<Longrightarrow> event_map s1 x = Some ev"
    and in1: "\<And>n. n \<in> dom g1 \<Longrightarrow> n \<in> dom graph \<or> (\<exists>ev. event_map s1 n = Some ev \<and> room_id ev = rid)"
    by auto
  from g1(1) s1(1) have ok2: "graph_ok (lookup E s1) D g1 {}" by simp
  note ih = Cons.IH [OF rest ok2, unfolded s1]
  from ih have r: "graph_ok (lookup E s) D g {}" "dom g1 \<union> set starts \<subseteq> dom g"
      "lookup E s' = lookup E s" "warnings s' = warnings s"
    and least2: "\<And>K. dom g1 \<union> set starts \<subseteq> K \<Longrightarrow> (\<forall>n \<in> K. auth_edges (lookup E s) D n \<subseteq> K)
            \<Longrightarrow> dom g \<subseteq> K"
    and keep2: "\<And>x ev. event_map s1 x = Some ev \<Longrightarrow> event_map s' x = Some ev"
    and in2: "\<And>n. n \<in> dom g \<Longrightarrow> n \<in> dom g1 \<or> (\<exists>ev. event_map s' n = Some ev \<and> room_id ev = rid)"
    by auto
  have sub: "dom graph \<union> set (start # starts) \<subseteq> dom g" using g1(2) r(2) by auto
  have least: "dom g \<subseteq> K"
    if K: "dom graph \<union> set (start # starts) \<subseteq> K" "\<forall>n \<in> K. auth_edges (lookup E s) D n \<subseteq> K" for K
  proof (rule least2)
    have "dom g1 \<subseteq> K" using K by (intro least1) auto
    then show "dom g1 \<union> set starts \<subseteq> K" using K(1) by auto
    show "\<forall>n \<in> K. auth_edges (lookup E s) D n \<subseteq> K" by (rule K(2))
  qed
  have keep: "event_map s' x = Some ev" if "event_map s x = Some ev" for x ev
    using that keep1 keep2 by blast
  have inn: "n \<in> dom graph \<or> (\<exists>ev. event_map s' n = Some ev \<and> room_id ev = rid)"
    if "n \<in> dom g" for n
    using in2 [OF that] in1 [of n] keep2 by blast
  show ?case
  proof (intro conjI allI impI ballI)
    show "graph_ok (lookup E s) D g {}" by (rule r(1))
    show "dom graph \<union> set (start # starts) \<subseteq> dom g" by (rule sub)
    show "lookup E s' = lookup E s" by (rule r(3))
    show "warnings s' = warnings s" by (rule r(4))
  next
    fix K
    assume "dom graph \<union> set (start # starts) \<subseteq> K \<and> (\<forall>n \<in> K. auth_edges (lookup E s) D n \<subseteq> K)"
    then show "dom g \<subseteq> K" using least by blast
  next
    fix x ev assume "event_map s x = Some ev"
    then show "event_map s' x = Some ev" by (rule keep)
  next
    fix n assume "n \<in> dom g"
    then show "n \<in> dom graph \<or> (\<exists>ev. event_map s' n = Some ev \<and> room_id ev = rid)"
      by (rule inn)
  qed
qed

lemma auth_closure_closed:
  "n \<in> auth_closure lk D S \<Longrightarrow> auth_edges lk D n \<subseteq> auth_closure lk D S"
  unfolding auth_closure_def by (auto intro: rtrancl_into_rtrancl)

lemma auth_closure_least:
  assumes "S \<subseteq> K" and "\<forall>n \<in> K. auth_edges lk D n \<subseteq> K"
  shows "auth_closure lk D S \<subseteq> K"
proof
  fix x assume "x \<in> auth_closure lk D S"
  then obtain s0 where s0: "s0 \<in> S" and r: "(s0, x) \<in> {(n, a). a \<in> auth_edges lk D n}\<^sup>*"
    unfolding auth_closure_def by blast
  from r show "x \<in> K"
  proof (induction rule: rtrancl_induct)
    case base
    show ?case using s0 assms(1) by blast
  next
    case (step y z)
    then show ?case using assms(2) by blast
  qed
qed

lemma auth_closure_subset: "auth_closure lk D S \<subseteq> S \<union> D"
proof (rule auth_closure_least)
  show "S \<subseteq> S \<union> D" by simp
  show "\<forall>n \<in> S \<union> D. auth_edges lk D n \<subseteq> S \<union> D"
    by (auto simp: auth_edges_def split: option.splits)
qed

lemma add_all_to_graph_is_auth_graph:
  assumes "add_all_to_graph E rid D starts Map.empty s = Some (Inr g, s')"
  shows "g = auth_graph (lookup E s) D (set starts)"
proof -
  let ?lk = "lookup E s"
  have ok0: "graph_ok ?lk D Map.empty {}" by (simp add: graph_ok_def)
  from add_all_to_graph_correct [OF assms ok0]
  have ok: "graph_ok ?lk D g {}" and sub: "set starts \<subseteq> dom g"
    and least: "\<And>K. set starts \<subseteq> K \<Longrightarrow> (\<forall>n \<in> K. auth_edges ?lk D n \<subseteq> K) \<Longrightarrow> dom g \<subseteq> K"
    by auto
  have "dom g \<subseteq> auth_closure ?lk D (set starts)"
  proof (rule least)
    show "set starts \<subseteq> auth_closure ?lk D (set starts)"
      unfolding auth_closure_def by auto
    show "\<forall>n \<in> auth_closure ?lk D (set starts).
        auth_edges ?lk D n \<subseteq> auth_closure ?lk D (set starts)"
      using auth_closure_closed by blast
  qed
  moreover have "auth_closure ?lk D (set starts) \<subseteq> dom g"
    using sub ok by (intro auth_closure_least) (auto simp: graph_ok_def)
  ultimately have d: "dom g = auth_closure ?lk D (set starts)" by blast
  show ?thesis
  proof (rule ext)
    fix n
    show "g n = auth_graph ?lk D (set starts) n"
    proof (cases "g n")
      case None
      then have "n \<notin> dom g" by (simp add: domIff)
      then have "n \<notin> auth_closure ?lk D (set starts)" unfolding d .
      with None show ?thesis by (simp add: auth_graph_def)
    next
      case (Some es)
      then have "n \<in> dom g" by (simp add: domIff)
      then have "n \<in> auth_closure ?lk D (set starts)" unfolding d .
      moreover from Some ok have "es = auth_edges ?lk D n" by (simp add: graph_ok_def)
      ultimately show ?thesis using Some by (simp add: auth_graph_def)
    qed
  qed
qed

lemma graph_keys_in_starts_or_auth_diff:
  assumes "add_all_to_graph E rid auth_diff event_ids Map.empty s = Some (Inr graph, s')"
  shows "dom graph \<subseteq> set event_ids \<union> auth_diff"
    and "graph n = Some edges \<Longrightarrow> edges \<subseteq> auth_diff"
proof -
  have g: "graph = auth_graph (lookup E s) auth_diff (set event_ids)"
    using assms by (rule add_all_to_graph_is_auth_graph)
  show "dom graph \<subseteq> set event_ids \<union> auth_diff"
    using auth_closure_subset [of "lookup E s" auth_diff "set event_ids"]
    by (auto simp: g auth_graph_def dom_def split: if_splits)
  show "edges \<subseteq> auth_diff" if "graph n = Some edges"
    using that by (auto simp: g auth_graph_def auth_edges_def split: if_splits option.splits)
qed

text \<open>
  The starting ids that \<open>resolve_events_with_store\<close> hands to the power sort are
  members of the set it hands over as \<open>auth_diff\<close> (lines 112 to 123).
\<close>

lemma power_events_in_full_conflicted_set:
  assumes "is_enum (iter_ids I)" and "finite fcs"
  shows "set (filter (\<lambda>eid. case event_map s1 eid of None \<Rightarrow> False | Some ev \<Rightarrow> is_power_event ev)
                (iter_ids I {eid \<in> fcs. eid \<in> dom (event_map s1)}))
           \<subseteq> {eid \<in> fcs. eid \<in> dom (event_map s1)}"
proof -
  have "finite {eid \<in> fcs. eid \<in> dom (event_map s1)}" using assms(2) by simp
  then have "set (iter_ids I {eid \<in> fcs. eid \<in> dom (event_map s1)})
               = {eid \<in> fcs. eid \<in> dom (event_map s1)}"
    using is_enumD [OF assms(1)] by blast
  then show ?thesis by auto
qed

text \<open>
  C9. In the graph that the first loop of \<open>_reverse_topological_power_sort\<close> builds
  from starting event ids that lie in \<open>auth_diff\<close>, as the starting power event ids
  of \<open>resolve_events_with_store\<close> do, no node outside \<open>auth_diff\<close> is a key of the
  adjacency map, and every edge points to a node in \<open>auth_diff\<close>.
\<close>

theorem graph_keys_and_edges:
  assumes "add_all_to_graph E rid auth_diff event_ids Map.empty s = Some (Inr graph, s')"
    and "set event_ids \<subseteq> auth_diff"
  shows "dom graph \<subseteq> auth_diff
    \<and> (\<forall>n edges. graph n = Some edges \<longrightarrow> edges \<subseteq> auth_diff)"
proof (intro conjI allI impI)
  show "dom graph \<subseteq> auth_diff"
    using graph_keys_in_starts_or_auth_diff(1) [OF assms(1)] assms(2) by blast
next
  fix n edges assume "graph n = Some edges"
  then show "edges \<subseteq> auth_diff"
    by (rule graph_keys_in_starts_or_auth_diff(2) [OF assms(1)])
qed

lemma ex_graph_run:
  "map_option fst (add_all_to_graph ex_env_pl ''!room'' {''$p'', ''$c''} [''$p''] Map.empty
       (initial_state None))
     = Some (Inr [''$p'' \<mapsto> {''$c''}, ''$c'' \<mapsto> {}])"
  by (simp add: add_event_and_auth_chain_to_graph_def add_event_and_auth_chain_to_graph_loop.simps
      get_event_def Let_def ex_env_pl_def ex_env_def ex_store_def initial_state_def setdefault_def
      setdefault_add_def restrict_map_def map_add_def ex_event_def ex_pl_def fun_eq_iff dom_def)

theorem graph_keys_and_edges_witness:
  "is_power_event ex_pl
   \<and> map_option fst (add_all_to_graph ex_env_pl ''!room'' {''$p'', ''$c''} [''$p''] Map.empty
         (initial_state None))
     = Some (Inr [''$p'' \<mapsto> {''$c''}, ''$c'' \<mapsto> {}])
   \<and> set [''$p''] \<subseteq> {''$p'', ''$c''}
   \<and> dom [''$p'' \<mapsto> {''$c''}, ''$c'' \<mapsto> ({} :: event_id set)] \<subseteq> {''$p'', ''$c''}
   \<and> [''$p'' \<mapsto> {''$c''}, ''$c'' \<mapsto> ({} :: event_id set)] ''$p'' = Some {''$c''}
   \<and> {''$c''} \<subseteq> {''$p'', ''$c''}"
proof -
  from ex_graph_run obtain s' where
    run: "add_all_to_graph ex_env_pl ''!room'' {''$p'', ''$c''} [''$p''] Map.empty
            (initial_state None)
       = Some (Inr [''$p'' \<mapsto> {''$c''}, ''$c'' \<mapsto> {}], s')"
    by (cases "add_all_to_graph ex_env_pl ''!room'' {''$p'', ''$c''} [''$p''] Map.empty
          (initial_state None)") auto
  have sub: "set [''$p''] \<subseteq> {''$p'', ''$c''}" by simp
  have pw: "is_power_event ex_pl"
    by (simp add: is_power_event_def ex_pl_def ex_event_def)
  from graph_keys_and_edges [OF run sub] ex_graph_run pw show ?thesis by simp
qed

subsection \<open>The specification of the topological sort\<close>















subsection \<open>The topological sort\<close>

















subsection \<open>The mainline sort\<close>






lemma depth_of_unique:
  assumes "depth_of lk mm io d" and "depth_of lk mm io d'"
  shows "d = d'"
  using assms
proof (induction arbitrary: d' rule: depth_of.induct)
  case depth_none
  from depth_none show ?case by (cases rule: depth_of.cases) simp_all
next
  case (depth_hit e d)
  from depth_hit.prems depth_hit.hyps show ?case by (cases rule: depth_of.cases) simp_all
next
  case (depth_step e d)
  from depth_step.prems show ?case
  proof (cases rule: depth_of.cases)
    case depth_hit
    with depth_step.hyps show ?thesis by simp
  next
    case depth_step
    then show ?thesis using depth_step.IH by blast
  qed
qed

lemma mainline_of_unique:
  assumes "mainline_of lk pl ml" and "mainline_of lk pl ml'"
  shows "ml = ml'"
  using assms
proof (induction arbitrary: ml' rule: mainline_of.induct)
  case mainline_end
  from mainline_end show ?case by (cases rule: mainline_of.cases) simp_all
next
  case (mainline_step p ml)
  from mainline_step.prems show ?case
  proof (cases rule: mainline_of.cases)
    case (mainline_step ml2)
    then show ?thesis using mainline_step.IH by blast
  qed
qed















end
